theory Spec2Isabelle
  imports
    Complex_Main
    "HOL-Library.Word"
    "HOL-Library.Multiset"
    "HOL-Library.Log_Nat"
begin

unbundle bit_operations_syntax

section \<open>Common conventions\<close>

text \<open>
  \<^verbatim>\<open>__builtin_trap()\<close> aborts the process. A function of the source that can reach it
  returns an \<open>option\<close> here, and \<open>None\<close> is the trap. A function of the source without
  any trap or branch that leaves it early is a plain HOL function.

  \<^verbatim>\<open>uint8_t\<close> is \<open>8 word\<close>, \<^verbatim>\<open>uint32_t\<close> and \<^verbatim>\<open>int\<close> are \<open>32 word\<close>
  (read by \<open>unat\<close>, respectively \<open>sint\<close>), and \<^verbatim>\<open>size_t\<close>, \<^verbatim>\<open>uintptr_t\<close>,
  \<^verbatim>\<open>uint64_t\<close> are \<open>64 word\<close>: the drain in \<^verbatim>\<open>concurrent_byteset.h\<close> copies
  \<^verbatim>\<open>sizeof(uintptr_t)\<close> bytes at a time and \<^verbatim>\<open>feature.h\<close> uses
  \<^verbatim>\<open>__builtin_popcountll\<close> on a \<^verbatim>\<open>uintptr_t\<close>, so the target is a 64-bit one.
\<close>

type_synonym uint8_t = "8 word"
type_synonym uint32_t = "32 word"
type_synonym size_t = "64 word"
type_synonym uintptr_t = "64 word"
type_synonym feature_t = "64 word"

section \<open>\<^verbatim>\<open>centipede/feature.h\<close>\<close>

subsection \<open>\<^verbatim>\<open>feature_domains::Domain\<close>\<close>

text \<open>The private field \<^verbatim>\<open>domain_id_\<close>; its accessor \<^verbatim>\<open>domain_id()\<close> is the field selector.\<close>

record Domain =
  domain_id :: size_t

text \<open>\<^verbatim>\<open>static constexpr size_t kDomainSize = 1ULL << 27;\<close>\<close>

definition kDomainSize :: size_t where
  "kDomainSize = push_bit 27 1"

text \<open>\<^verbatim>\<open>begin()\<close> and \<^verbatim>\<open>end()\<close>; the names are keywords of Isabelle, hence the prefix.\<close>

definition Domain_begin :: "Domain \<Rightarrow> feature_t" where
  "Domain_begin d = kDomainSize * domain_id d"

definition Domain_end :: "Domain \<Rightarrow> feature_t" where
  "Domain_end d = Domain_begin d + kDomainSize"

definition Contains :: "Domain \<Rightarrow> feature_t \<Rightarrow> bool" where
  "Contains d feature \<longleftrightarrow> feature \<ge> Domain_begin d \<and> feature < Domain_end d"

definition ConvertToMe :: "Domain \<Rightarrow> size_t \<Rightarrow> feature_t" where
  "ConvertToMe d number = Domain_begin d + number mod kDomainSize"

definition FeatureToDomainId :: "feature_t \<Rightarrow> size_t" where
  "FeatureToDomainId feature = feature div kDomainSize"

definition FeatureToIndexInDomain :: "feature_t \<Rightarrow> size_t" where
  "FeatureToIndexInDomain feature = feature mod kDomainSize"

text \<open>
  The domains are numbered by \<^verbatim>\<open>__COUNTER__\<close> in declaration order:
  \<^verbatim>\<open>kUnknown\<close> 0, \<^verbatim>\<open>kPCs\<close> 1, \<^verbatim>\<open>k8bitCounters\<close> 2, \<^verbatim>\<open>kDataFlow\<close> 3, \<^verbatim>\<open>kCMP\<close> 4,
  \<^verbatim>\<open>kCMPEq\<close> 5, \<^verbatim>\<open>kCMPModDiff\<close> 6, \<^verbatim>\<open>kCMPHamming\<close> 7, \<^verbatim>\<open>kCMPDiffLog\<close> 8,
  \<^verbatim>\<open>kCallStack\<close> 9, \<^verbatim>\<open>kBoundedPath\<close> 10, \<^verbatim>\<open>kPCPair\<close> 11, the sixteen
  \<^verbatim>\<open>kUserDomains\<close> 12 to 27, and \<^verbatim>\<open>kLastDomain\<close> 28.
\<close>

definition kUnknown :: Domain where
  "kUnknown = \<lparr>domain_id = 0\<rparr>"

definition kPCs :: Domain where
  "kPCs = \<lparr>domain_id = 1\<rparr>"

definition kLastDomain :: Domain where
  "kLastDomain = \<lparr>domain_id = 28\<rparr>"

subsection \<open>Encoders\<close>

text \<open>
  \<^verbatim>\<open>__builtin_clz\<close> on a 32-bit value: the number of zero bits above the highest set
  bit. \<open>clz_below w n\<close> scans the bits \<open>n - 1\<close>, \<open>n - 2\<close>, ... of \<open>w\<close> downwards and
  counts zeros until the first set bit. (The builtin is undefined at 0; the one caller
  excludes 0 before it calls.)
\<close>

fun clz_below :: "'a::len word \<Rightarrow> nat \<Rightarrow> nat" where
  "clz_below w 0 = 0"
| "clz_below w (Suc n) = (if bit w n then 0 else Suc (clz_below w n))"

definition builtin_clz :: "uint32_t \<Rightarrow> nat" where
  "builtin_clz w = clz_below w 32"

text \<open>
  \<^verbatim>\<open>Convert8bitCounterToNumber\<close>. \<^verbatim>\<open>sizeof(uint32_t) * 8 - 1 - __builtin_clz(v)\<close> is
  computed in \<^verbatim>\<open>size_t\<close>, stored in a \<^verbatim>\<open>uint32_t\<close>, and widened again for the sum.
\<close>

definition Convert8bitCounterToNumber :: "size_t \<Rightarrow> uint8_t \<Rightarrow> size_t option" where
  "Convert8bitCounterToNumber pc_index counter_value =
     (if counter_value = 0 then None
      else
        let counter_log2 :: uint32_t =
              ucast ((4 * 8 - 1 - of_nat (builtin_clz (ucast counter_value))) :: size_t)
        in Some (pc_index * 8 + ucast counter_log2))"

definition ConvertPCFeatureToPcIndex :: "feature_t \<Rightarrow> size_t option" where
  "ConvertPCFeatureToPcIndex feature =
     (let domain = kPCs in
      if \<not> Contains domain feature then None
      else Some (feature - Domain_begin domain))"

text \<open>
  \<^verbatim>\<open>__builtin_popcountll\<close> returns an \<^verbatim>\<open>int\<close>: the number of set bits of its
  64-bit argument.
\<close>

definition builtin_popcountll :: "64 word \<Rightarrow> 32 word" where
  "builtin_popcountll w = of_nat (length (filter (bit w) [0..<64]))"

text \<open>
  \<^verbatim>\<open>ABToCmpHamming\<close>: the subtraction is done in \<^verbatim>\<open>int\<close>, and the \<^verbatim>\<open>int\<close> is
  converted to the \<^verbatim>\<open>uintptr_t\<close> result, that is, sign-extended (\<open>scast\<close>).
\<close>

definition ABToCmpHamming :: "uintptr_t \<Rightarrow> uintptr_t \<Rightarrow> uintptr_t" where
  "ABToCmpHamming a b = scast (builtin_popcountll (a XOR b) - 1)"

text \<open>
  The mathematical \<open>\<lfloor>log\<^sub>2 x\<rfloor>\<close> the counter encoder is compared with; not part of
  the source.
\<close>

definition floor_log2 :: "nat \<Rightarrow> nat" where
  "floor_log2 x = nat \<lfloor>log 2 (real x)\<rfloor>"

section \<open>\<^verbatim>\<open>centipede/concurrent_byteset.h\<close>\<close>

subsection \<open>\<^verbatim>\<open>ConcurrentByteSet<kSize>\<close>\<close>

text \<open>
  The only field is \<^verbatim>\<open>uint8_t bytes_[kSize]\<close>: the object is the list of its bytes, of
  length \<open>kSize\<close>. The template parameter \<open>kSize\<close> is the first argument of each member
  function. Indices and byte offsets are \<^verbatim>\<open>size_t\<close> values that the code compares,
  divides, or uses as offsets into the array; they are natural numbers here (for an
  offset far beyond the array, see the remark at \<open>ForEachNonZeroByte\<close>). The calls
  are the single-threaded ones: an atomic relaxed load or store is a read or write of
  the byte.
\<close>

type_synonym ConcurrentByteSet = "uint8_t list"

definition kSizeMultiple :: nat where
  "kSizeMultiple = 64"

text \<open>\<^verbatim>\<open>static_assert((kSize % kSizeMultiple) == 0)\<close>\<close>

definition ConcurrentByteSet_static_assert :: "nat \<Rightarrow> bool" where
  "ConcurrentByteSet_static_assert kSize \<longleftrightarrow> kSize mod kSizeMultiple = 0"

text \<open>\<^verbatim>\<open>clear()\<close>: \<^verbatim>\<open>memset(bytes_, 0, sizeof(bytes_))\<close>.\<close>

definition clear :: "nat \<Rightarrow> ConcurrentByteSet \<Rightarrow> ConcurrentByteSet" where
  "clear kSize bytes = replicate kSize 0"

definition Set :: "nat \<Rightarrow> nat \<Rightarrow> uint8_t \<Rightarrow> ConcurrentByteSet \<Rightarrow> ConcurrentByteSet option" where
  "Set kSize idx v bytes =
     (if idx \<ge> kSize then None
      else Some (bytes[idx := v]))"

definition SaturatedIncrement :: "nat \<Rightarrow> nat \<Rightarrow> ConcurrentByteSet \<Rightarrow> ConcurrentByteSet option" where
  "SaturatedIncrement kSize idx bytes =
     (if idx \<ge> kSize then None
      else
        let counter = bytes ! idx
        in if counter \<noteq> 255 then Some (bytes[idx := counter + 1]) else Some bytes)"

text \<open>\<^verbatim>\<open>using word_t = uintptr_t; constexpr size_t kWordSize = sizeof(word_t);\<close>\<close>

definition kWordSize :: nat where
  "kWordSize = 8"

definition CHAR_BIT :: nat where
  "CHAR_BIT = 8"

text \<open>
  \<^verbatim>\<open>__builtin_memcpy(&word, ptr, kWordSize)\<close> on a little-endian machine (the source
  assumes one): the byte at the lowest address is the lowest byte of the word.
\<close>

fun little_endian :: "uint8_t list \<Rightarrow> uintptr_t" where
  "little_endian [] = 0"
| "little_endian (b # bs) = ucast b OR push_bit CHAR_BIT (little_endian bs)"

definition memcpy_word :: "ConcurrentByteSet \<Rightarrow> nat \<Rightarrow> uintptr_t" where
  "memcpy_word bytes ptr = little_endian (take kWordSize (drop ptr bytes))"

text \<open>\<^verbatim>\<open>__builtin_memset(ptr, 0, kWordSize)\<close>\<close>

definition memset_word :: "ConcurrentByteSet \<Rightarrow> nat \<Rightarrow> ConcurrentByteSet" where
  "memset_word bytes ptr =
     map (\<lambda>i. if ptr \<le> i \<and> i < ptr + kWordSize then 0 else bytes ! i) [0..<length bytes]"

text \<open>
  The callback \<^verbatim>\<open>action\<close> runs for its effect. It is a function on a state \<open>'s\<close> of
  the caller's, which may trap (\<open>None\<close>); the drain passes the state from one call to the
  next. The state is disjoint from the bytes of the set that is drained.

  The inner loop of \<^verbatim>\<open>ForEachNonZeroByte\<close>, over the byte positions \<open>pos\<close> of one word;
  \<open>ptr\<close> is the offset \<^verbatim>\<open>ptr - &bytes_[0]\<close> of the word.
\<close>

function byte_loop ::
  "(nat \<Rightarrow> uint8_t \<Rightarrow> 's \<Rightarrow> 's option) \<Rightarrow> nat \<Rightarrow> uintptr_t \<Rightarrow> nat \<Rightarrow> 's \<Rightarrow> 's option" where
  "byte_loop action ptr word pos s =
     (if pos < kWordSize then
        let v :: uint8_t = ucast (drop_bit (pos * CHAR_BIT) word)
        in if v \<noteq> 0 then
             (case action (ptr + pos) v s of
                None \<Rightarrow> None
              | Some s' \<Rightarrow> byte_loop action ptr word (pos + 1) s')
           else byte_loop action ptr word (pos + 1) s
      else Some s)"
  by pat_completeness auto
termination
  by (relation "measure (\<lambda>(action, ptr, word, pos, s). kWordSize - pos)") auto

declare byte_loop.simps [simp del]

text \<open>The outer loop, one word at a time, from offset \<open>ptr\<close> up to offset \<open>e\<close>.\<close>

function word_loop ::
  "(nat \<Rightarrow> uint8_t \<Rightarrow> 's \<Rightarrow> 's option) \<Rightarrow> nat \<Rightarrow> nat \<Rightarrow> ConcurrentByteSet \<Rightarrow> 's
     \<Rightarrow> (ConcurrentByteSet \<times> 's) option" where
  "word_loop action ptr e bytes s =
     (if ptr < e then
        let word = memcpy_word bytes ptr
        in if word = 0 then word_loop action (ptr + kWordSize) e bytes s
           else
             let bytes' = memset_word bytes ptr
             in (case byte_loop action ptr word 0 s of
                   None \<Rightarrow> None
                 | Some s' \<Rightarrow> word_loop action (ptr + kWordSize) e bytes' s')
      else Some (bytes, s))"
  by pat_completeness auto
termination
  by (relation "measure (\<lambda>(action, ptr, e, bytes, s). e - ptr)") (auto simp: kWordSize_def)

declare word_loop.simps [simp del]

text \<open>
  \<^verbatim>\<open>ForEachNonZeroByte(action, from, to)\<close>; the defaults are \<open>from = 0\<close> and
  \<open>to = kSize\<close>. The result is the set after the drain and the caller's state after the
  calls of \<^verbatim>\<open>action\<close>.

  The three checks come first and do not depend on the loop. The loop of the source
  compares the pointers \<^verbatim>\<open>&bytes_[from]\<close> and \<^verbatim>\<open>&bytes_[to]\<close>; \<open>word_loop\<close> compares the
  offsets. The two agree as long as \<^verbatim>\<open>&bytes_[from]\<close> does not wrap around the address
  space, which is so for every \<open>from \<le> kSize\<close>. For a \<open>from\<close> so large that the pointer
  wraps, the source's loop reads and writes memory outside the object, which this model
  of the object alone does not describe.
\<close>

definition ForEachNonZeroByte ::
  "nat \<Rightarrow> (nat \<Rightarrow> uint8_t \<Rightarrow> 's \<Rightarrow> 's option) \<Rightarrow> nat \<Rightarrow> nat \<Rightarrow> ConcurrentByteSet \<Rightarrow> 's
     \<Rightarrow> (ConcurrentByteSet \<times> 's) option" where
  "ForEachNonZeroByte kSize action from_idx to_idx bytes s =
     (if from_idx mod kSizeMultiple \<noteq> 0 then None
      else if to_idx mod kSizeMultiple \<noteq> 0 then None
      else if to_idx > kSize then None
      else word_loop action from_idx to_idx bytes s)"

subsection \<open>\<^verbatim>\<open>LayeredConcurrentByteSet\<close> and \<^verbatim>\<open>TwoLayerConcurrentByteSet<kSize>\<close>\<close>

text \<open>
  \<^verbatim>\<open>LayeredConcurrentByteSet<kSize, Upper, Lower>\<close> with both layers a
  \<^verbatim>\<open>ConcurrentByteSet\<close>, as \<^verbatim>\<open>TwoLayerConcurrentByteSet\<close> instantiates it:
  \<open>Lower = ConcurrentByteSet<kSize>\<close> (the default) and
  \<open>Upper = ConcurrentByteSet<upperSize>\<close>. The template parameters \<open>kSize\<close> and
  \<open>upperSize\<close> (\<^verbatim>\<open>Upper::kSizeInBytes\<close>) are the first arguments.
\<close>

record LayeredConcurrentByteSet =
  upper_layer :: ConcurrentByteSet
  lower_layer :: ConcurrentByteSet

text \<open>\<^verbatim>\<open>kSizeMultiple = Lower::kSizeMultiple * Upper::kSizeMultiple\<close>\<close>

definition Layered_kSizeMultiple :: nat where
  "Layered_kSizeMultiple = kSizeMultiple * kSizeMultiple"

text \<open>\<^verbatim>\<open>kLayerRatio = Lower::kSizeInBytes / Upper::kSizeInBytes\<close>\<close>

definition kLayerRatio :: "nat \<Rightarrow> nat \<Rightarrow> nat" where
  "kLayerRatio kSize upperSize = kSize div upperSize"

text \<open>
  The static assertions of the layered class and of its two layers. A constant
  expression that divides by zero does not compile, so \<open>upperSize\<close> is not 0.
\<close>

definition Layered_static_assert :: "nat \<Rightarrow> nat \<Rightarrow> bool" where
  "Layered_static_assert kSize upperSize \<longleftrightarrow>
     ConcurrentByteSet_static_assert kSize
     \<and> ConcurrentByteSet_static_assert upperSize
     \<and> upperSize \<noteq> 0
     \<and> kSize mod upperSize = 0"

definition Layered_clear :: "nat \<Rightarrow> nat \<Rightarrow> LayeredConcurrentByteSet \<Rightarrow> LayeredConcurrentByteSet" where
  "Layered_clear kSize upperSize L =
     \<lparr>upper_layer = clear upperSize (upper_layer L),
      lower_layer = clear kSize (lower_layer L)\<rparr>"

definition Layered_Set ::
  "nat \<Rightarrow> nat \<Rightarrow> nat \<Rightarrow> uint8_t \<Rightarrow> LayeredConcurrentByteSet \<Rightarrow> LayeredConcurrentByteSet option" where
  "Layered_Set kSize upperSize idx v L =
     (if idx \<ge> kSize then None
      else
        (case Set upperSize (idx div kLayerRatio kSize upperSize) 1 (upper_layer L) of
           None \<Rightarrow> None
         | Some upper \<Rightarrow>
             (case Set kSize idx v (lower_layer L) of
                None \<Rightarrow> None
              | Some lower \<Rightarrow> Some \<lparr>upper_layer = upper, lower_layer = lower\<rparr>)))"

definition Layered_SaturatedIncrement ::
  "nat \<Rightarrow> nat \<Rightarrow> nat \<Rightarrow> LayeredConcurrentByteSet \<Rightarrow> LayeredConcurrentByteSet option" where
  "Layered_SaturatedIncrement kSize upperSize idx L =
     (if idx \<ge> kSize then None
      else
        (case Set upperSize (idx div kLayerRatio kSize upperSize) 1 (upper_layer L) of
           None \<Rightarrow> None
         | Some upper \<Rightarrow>
             (case SaturatedIncrement kSize idx (lower_layer L) of
                None \<Rightarrow> None
              | Some lower \<Rightarrow> Some \<lparr>upper_layer = upper, lower_layer = lower\<rparr>)))"

text \<open>
  The lambda that the layered drain passes to the drain of the upper layer. Its state
  is the lower layer together with the state of the caller's \<^verbatim>\<open>action\<close>.
\<close>

definition drain_lower ::
  "nat \<Rightarrow> nat \<Rightarrow> (nat \<Rightarrow> uint8_t \<Rightarrow> 's \<Rightarrow> 's option) \<Rightarrow> nat \<Rightarrow> uint8_t
     \<Rightarrow> ConcurrentByteSet \<times> 's \<Rightarrow> (ConcurrentByteSet \<times> 's) option" where
  "drain_lower kSize upperSize action idx v st =
     (let lower_from = idx * kLayerRatio kSize upperSize;
          lower_to = lower_from + kLayerRatio kSize upperSize
      in ForEachNonZeroByte kSize action lower_from lower_to (fst st) (snd st))"

definition Layered_ForEachNonZeroByte ::
  "nat \<Rightarrow> nat \<Rightarrow> (nat \<Rightarrow> uint8_t \<Rightarrow> 's \<Rightarrow> 's option) \<Rightarrow> nat \<Rightarrow> nat
     \<Rightarrow> LayeredConcurrentByteSet \<Rightarrow> 's \<Rightarrow> (LayeredConcurrentByteSet \<times> 's) option" where
  "Layered_ForEachNonZeroByte kSize upperSize action from_idx to_idx L s =
     (if to_idx > kSize then None
      else if from_idx mod Layered_kSizeMultiple \<noteq> 0 then None
      else if to_idx mod Layered_kSizeMultiple \<noteq> 0 then None
      else
        let upper_from = from_idx div kLayerRatio kSize upperSize;
            upper_to = to_idx div kLayerRatio kSize upperSize
        in (case ForEachNonZeroByte upperSize (drain_lower kSize upperSize action)
                   upper_from upper_to (upper_layer L) (lower_layer L, s) of
              None \<Rightarrow> None
            | Some (upper, lower, s') \<Rightarrow> Some (\<lparr>upper_layer = upper, lower_layer = lower\<rparr>, s')))"

text \<open>
  \<^verbatim>\<open>TwoLayerConcurrentByteSet<kSize>\<close> is
  \<^verbatim>\<open>LayeredConcurrentByteSet<kSize, ConcurrentByteSet<kSize / 64>>\<close>.
\<close>

definition TwoLayer_static_assert :: "nat \<Rightarrow> bool" where
  "TwoLayer_static_assert kSize = Layered_static_assert kSize (kSize div 64)"

definition TwoLayer_clear :: "nat \<Rightarrow> LayeredConcurrentByteSet \<Rightarrow> LayeredConcurrentByteSet" where
  "TwoLayer_clear kSize = Layered_clear kSize (kSize div 64)"

definition TwoLayer_Set ::
  "nat \<Rightarrow> nat \<Rightarrow> uint8_t \<Rightarrow> LayeredConcurrentByteSet \<Rightarrow> LayeredConcurrentByteSet option" where
  "TwoLayer_Set kSize = Layered_Set kSize (kSize div 64)"

definition TwoLayer_SaturatedIncrement ::
  "nat \<Rightarrow> nat \<Rightarrow> LayeredConcurrentByteSet \<Rightarrow> LayeredConcurrentByteSet option" where
  "TwoLayer_SaturatedIncrement kSize = Layered_SaturatedIncrement kSize (kSize div 64)"

definition TwoLayer_ForEachNonZeroByte ::
  "nat \<Rightarrow> (nat \<Rightarrow> uint8_t \<Rightarrow> 's \<Rightarrow> 's option) \<Rightarrow> nat \<Rightarrow> nat
     \<Rightarrow> LayeredConcurrentByteSet \<Rightarrow> 's \<Rightarrow> (LayeredConcurrentByteSet \<times> 's) option" where
  "TwoLayer_ForEachNonZeroByte kSize = Layered_ForEachNonZeroByte kSize (kSize div 64)"

subsection \<open>Observing a drain\<close>

text \<open>
  An \<^verbatim>\<open>action\<close> that appends each call's arguments to a log: the log after a drain is
  the sequence of the calls \<^verbatim>\<open>action(index, value)\<close> the drain made.
\<close>

definition record_call :: "nat \<Rightarrow> uint8_t \<Rightarrow> (nat \<times> uint8_t) list \<Rightarrow> (nat \<times> uint8_t) list option" where
  "record_call idx v calls = Some (calls @ [(idx, v)])"

subsection \<open>Call sequences and the reference behaviour of a drain\<close>

text \<open>\<open>k\<close> calls of \<^verbatim>\<open>SaturatedIncrement(idx)\<close> in a row; a trap ends the run.\<close>

fun SaturatedIncrement_times ::
  "nat \<Rightarrow> nat \<Rightarrow> nat \<Rightarrow> ConcurrentByteSet \<Rightarrow> ConcurrentByteSet option" where
  "SaturatedIncrement_times kSize idx 0 bytes = Some bytes"
| "SaturatedIncrement_times kSize idx (Suc k) bytes =
     (case SaturatedIncrement kSize idx bytes of
        None \<Rightarrow> None
      | Some bytes' \<Rightarrow> SaturatedIncrement_times kSize idx k bytes')"

text \<open>
  What a drain is compared with; none of this is in the source. \<open>run_actions\<close> calls
  \<open>action\<close> on a list of pairs in order, \<open>nonzero_bytes bytes a b\<close> lists the non-zero
  bytes at the offsets \<open>a \<le> i < b\<close> with their offsets, in increasing order, and
  \<open>zero_range bytes a b\<close> is \<open>bytes\<close> with those offsets set to 0.
\<close>

fun run_actions ::
  "(nat \<Rightarrow> uint8_t \<Rightarrow> 's \<Rightarrow> 's option) \<Rightarrow> (nat \<times> uint8_t) list \<Rightarrow> 's \<Rightarrow> 's option" where
  "run_actions action [] s = Some s"
| "run_actions action (iv # ivs) s =
     (case action (fst iv) (snd iv) s of
        None \<Rightarrow> None
      | Some s' \<Rightarrow> run_actions action ivs s')"

definition nonzero_bytes :: "ConcurrentByteSet \<Rightarrow> nat \<Rightarrow> nat \<Rightarrow> (nat \<times> uint8_t) list" where
  "nonzero_bytes bytes a b = map (\<lambda>i. (i, bytes ! i)) (filter (\<lambda>i. bytes ! i \<noteq> 0) [a..<b])"

definition zero_range :: "ConcurrentByteSet \<Rightarrow> nat \<Rightarrow> nat \<Rightarrow> ConcurrentByteSet" where
  "zero_range bytes a b =
     map (\<lambda>i. if a \<le> i \<and> i < b then 0 else bytes ! i) [0..<length bytes]"

text \<open>
  A sequence of \<^verbatim>\<open>Set(idx, v)\<close> calls, given as the list of the pairs \<open>(idx, v)\<close> in call
  order; a trap ends the run. \<open>last_written calls i\<close> is the value of the last call in the
  sequence that wrote index \<open>i\<close>, and 0, the value of a cleared byte, when no call did.
\<close>

fun Set_calls :: "nat \<Rightarrow> (nat \<times> uint8_t) list \<Rightarrow> ConcurrentByteSet \<Rightarrow> ConcurrentByteSet option" where
  "Set_calls kSize [] bytes = Some bytes"
| "Set_calls kSize (c # calls) bytes =
     (case Set kSize (fst c) (snd c) bytes of
        None \<Rightarrow> None
      | Some bytes' \<Rightarrow> Set_calls kSize calls bytes')"

definition last_written :: "(nat \<times> uint8_t) list \<Rightarrow> nat \<Rightarrow> uint8_t" where
  "last_written calls i =
     (let writes = filter (\<lambda>c. fst c = i) calls
      in if writes = [] then 0 else snd (last writes))"

text \<open>
  A sequence of \<^verbatim>\<open>Set\<close> and \<^verbatim>\<open>SaturatedIncrement\<close> calls, applied to a single-layer
  set and, identically, to a two-layer set; a trap ends the run.
\<close>

datatype byteset_call = Call_Set nat uint8_t | Call_SaturatedIncrement nat

fun call_idx :: "byteset_call \<Rightarrow> nat" where
  "call_idx (Call_Set idx v) = idx"
| "call_idx (Call_SaturatedIncrement idx) = idx"

fun apply_call :: "nat \<Rightarrow> byteset_call \<Rightarrow> ConcurrentByteSet \<Rightarrow> ConcurrentByteSet option" where
  "apply_call kSize (Call_Set idx v) bytes = Set kSize idx v bytes"
| "apply_call kSize (Call_SaturatedIncrement idx) bytes = SaturatedIncrement kSize idx bytes"

fun TwoLayer_apply_call ::
  "nat \<Rightarrow> byteset_call \<Rightarrow> LayeredConcurrentByteSet \<Rightarrow> LayeredConcurrentByteSet option" where
  "TwoLayer_apply_call kSize (Call_Set idx v) L = TwoLayer_Set kSize idx v L"
| "TwoLayer_apply_call kSize (Call_SaturatedIncrement idx) L =
     TwoLayer_SaturatedIncrement kSize idx L"

fun apply_calls :: "nat \<Rightarrow> byteset_call list \<Rightarrow> ConcurrentByteSet \<Rightarrow> ConcurrentByteSet option" where
  "apply_calls kSize [] bytes = Some bytes"
| "apply_calls kSize (c # calls) bytes =
     (case apply_call kSize c bytes of
        None \<Rightarrow> None
      | Some bytes' \<Rightarrow> apply_calls kSize calls bytes')"

fun TwoLayer_apply_calls ::
  "nat \<Rightarrow> byteset_call list \<Rightarrow> LayeredConcurrentByteSet \<Rightarrow> LayeredConcurrentByteSet option" where
  "TwoLayer_apply_calls kSize [] L = Some L"
| "TwoLayer_apply_calls kSize (c # calls) L =
     (case TwoLayer_apply_call kSize c L of
        None \<Rightarrow> None
      | Some L' \<Rightarrow> TwoLayer_apply_calls kSize calls L')"

text \<open>
  The relation between the layers that the writes keep: the layers have their sizes, and
  a non-zero byte of the lower layer has a non-zero flag in the upper layer.
\<close>

definition layers_inv :: "nat \<Rightarrow> LayeredConcurrentByteSet \<Rightarrow> bool" where
  "layers_inv kSize L \<longleftrightarrow>
     length (upper_layer L) = kSize div 64
     \<and> length (lower_layer L) = kSize
     \<and> list_all (\<lambda>i. lower_layer L ! i = 0 \<or> upper_layer L ! (i div 64) \<noteq> 0) [0..<kSize]"

section \<open>\<^verbatim>\<open>fuzztest/internal/table_of_recent_compares.h\<close>\<close>

subsection \<open>\<^verbatim>\<open>TableOfRecentCompares<T>\<close>\<close>

text \<open>
  \<open>T\<close> is an integral type of 1, 2, 4 or 8 bytes: a word \<open>'a word\<close> of that many bits,
  read as unsigned or as two's complement. The flag \<open>is_signed\<close> (\<^verbatim>\<open>std::is_signed_v<T>\<close>)
  is the first argument of every function that compares or uses the limits of \<open>T\<close>.
  The member templates have a type parameter \<^verbatim>\<open>ValueType\<close>; they are modelled at
  \<^verbatim>\<open>ValueType = T\<close>, where every \<^verbatim>\<open>static_cast<ValueType>\<close> is the identity.
\<close>

definition T_less :: "bool \<Rightarrow> 'a::len word \<Rightarrow> 'a word \<Rightarrow> bool" where
  "T_less is_signed a b = (if is_signed then a <s b else a < b)"

definition T_less_eq :: "bool \<Rightarrow> 'a::len word \<Rightarrow> 'a word \<Rightarrow> bool" where
  "T_less_eq is_signed a b = (if is_signed then a \<le>s b else a \<le> b)"

definition numeric_limits_min :: "bool \<Rightarrow> 'a::len word" where
  "numeric_limits_min is_signed = (if is_signed then - (2 ^ (LENGTH('a) - 1)) else 0)"

definition numeric_limits_max :: "bool \<Rightarrow> 'a::len word" where
  "numeric_limits_max is_signed = (if is_signed then 2 ^ (LENGTH('a) - 1) - 1 else - 1)"

text \<open>
  The \<^verbatim>\<open>static_assert\<close> on \<open>T\<close>, \<^verbatim>\<open>sizeof(T)\<close>, and
  \<^verbatim>\<open>kTableSize = 4096U / sizeof(T)\<close>.
\<close>

definition TableOfRecentCompares_static_assert :: "'a::len itself \<Rightarrow> bool" where
  "TableOfRecentCompares_static_assert T \<longleftrightarrow> LENGTH('a) \<in> {8, 16, 32, 64}"

definition sizeof_T :: "'a::len itself \<Rightarrow> nat" where
  "sizeof_T T = LENGTH('a) div 8"

definition kTableSize :: "'a::len itself \<Rightarrow> nat" where
  "kTableSize T = 4096 div sizeof_T T"

record 'v CompareEntry =
  lhs :: 'v
  rhs :: 'v

text \<open>
  The fields \<^verbatim>\<open>insert_index_\<close> and \<^verbatim>\<open>table_\<close>; the table is a
  \<^verbatim>\<open>std::array\<close> of \<open>kTableSize\<close> entries.
\<close>

record 'v TableOfRecentCompares =
  insert_index :: nat
  table :: "'v CompareEntry list"

text \<open>
  \<^verbatim>\<open>GetMatchingIntegerDictionaryEntry(val, idx)\<close>. \<^verbatim>\<open>table_[idx]\<close> is an unchecked
  access to a \<^verbatim>\<open>std::array\<close>; the callers in this file pass \<open>idx < kTableSize\<close>.
\<close>

definition GetMatchingIntegerDictionaryEntry ::
  "('a::len word) TableOfRecentCompares \<Rightarrow> 'a word \<Rightarrow> nat \<Rightarrow> 'a word option" where
  "GetMatchingIntegerDictionaryEntry t val idx =
     (let result = None
      in if lhs (table t ! idx) = val then Some (rhs (table t ! idx))
         else if rhs (table t ! idx) = val then Some (lhs (table t ! idx))
         else result)"

text \<open>The overload \<^verbatim>\<open>GetMatchingIntegerDictionaryEntry(val, idx, min, max)\<close>.\<close>

definition GetMatchingIntegerDictionaryEntry_in ::
  "bool \<Rightarrow> ('a::len word) TableOfRecentCompares \<Rightarrow> 'a word \<Rightarrow> nat \<Rightarrow> 'a word \<Rightarrow> 'a word
     \<Rightarrow> 'a word option" where
  "GetMatchingIntegerDictionaryEntry_in is_signed t val idx mn mx =
     (let result = GetMatchingIntegerDictionaryEntry t val idx
      in case result of
           Some r \<Rightarrow> if T_less is_signed r mn \<or> T_less is_signed mx r then None else result
         | None \<Rightarrow> result)"

text \<open>
  \<^verbatim>\<open>absl::flat_hash_set<T>\<close> is not code of this repository. It holds each element once
  and its iteration order is unspecified. Here it is a list without duplicates, kept in
  insertion order; the theorems speak of the set of the elements and of the absence of
  duplicates only, which do not depend on the order.
\<close>

definition flat_hash_set_insert :: "'v \<Rightarrow> 'v list \<Rightarrow> 'v list" where
  "flat_hash_set_insert x dictionary_set =
     (if x \<in> set dictionary_set then dictionary_set else dictionary_set @ [x])"

text \<open>
  The loop \<^verbatim>\<open>for (int i = 0; i < kTableSize; ++i)\<close> of
  \<^verbatim>\<open>GetMatchingIntegerDictionaryEntries\<close>; \<open>get i\<close> is the call of
  \<^verbatim>\<open>GetMatchingIntegerDictionaryEntry\<close> in its body, which differs between the two
  copies of the loop.
\<close>

function entries_loop :: "(nat \<Rightarrow> 'v option) \<Rightarrow> nat \<Rightarrow> nat \<Rightarrow> 'v list \<Rightarrow> 'v list" where
  "entries_loop get n i dictionary_set =
     (if i < n then
        (case get i of
           Some dict_entry \<Rightarrow>
             entries_loop get n (i + 1) (flat_hash_set_insert dict_entry dictionary_set)
         | None \<Rightarrow> entries_loop get n (i + 1) dictionary_set)
      else dictionary_set)"
  by pat_completeness auto
termination
  by (relation "measure (\<lambda>(get, n, i, dictionary_set). n - i)") auto

declare entries_loop.simps [simp del]

definition GetMatchingIntegerDictionaryEntries ::
  "bool \<Rightarrow> ('a::len word) TableOfRecentCompares \<Rightarrow> 'a word \<Rightarrow> 'a word \<Rightarrow> 'a word
     \<Rightarrow> 'a word list" where
  "GetMatchingIntegerDictionaryEntries is_signed t val mn mx =
     (let dictionary_set = []
      in if mn = numeric_limits_min is_signed \<and> mx = numeric_limits_max is_signed then
           entries_loop (\<lambda>i. GetMatchingIntegerDictionaryEntry t val i)
             (kTableSize TYPE('a)) 0 dictionary_set
         else
           entries_loop (\<lambda>i. GetMatchingIntegerDictionaryEntry_in is_signed t val i mn mx)
             (kTableSize TYPE('a)) 0 dictionary_set)"

text \<open>
  \<^verbatim>\<open>GetRandomSide(prng, idx, min, max)\<close>. \<open>coin\<close> is the outcome of
  \<^verbatim>\<open>RandomBool(prng)\<close>, that is of \<^verbatim>\<open>absl::Bernoulli(prng, 0.5)\<close>. Both branches of the
  source read \<^verbatim>\<open>entry.lhs\<close>.
\<close>

definition GetRandomSide ::
  "bool \<Rightarrow> bool \<Rightarrow> ('a::len word) TableOfRecentCompares \<Rightarrow> nat \<Rightarrow> 'a word \<Rightarrow> 'a word
     \<Rightarrow> 'a word option" where
  "GetRandomSide is_signed coin t idx mn mx =
     (let result = None;
          entry = table t ! idx
      in if coin then
           (let val = lhs entry
            in if T_less_eq is_signed mn val \<and> T_less_eq is_signed val mx then Some val
               else result)
         else
           (let val = lhs entry
            in if T_less_eq is_signed mn val \<and> T_less_eq is_signed val mx then Some val
               else result))"

text \<open>
  A table of \<^verbatim>\<open>TableOfRecentCompares<uint32_t>\<close> (1024 slots) for the examples: slot 0
  holds \<open>(42, 99)\<close>, slot 1 holds \<open>(17, 42)\<close>, and the other slots are zero.
\<close>

definition example_table :: "(32 word) TableOfRecentCompares" where
  "example_table =
     \<lparr>insert_index = 0,
      table = \<lparr>lhs = 42, rhs = 99\<rparr> # \<lparr>lhs = 17, rhs = 42\<rparr> # replicate 1022 \<lparr>lhs = 0, rhs = 0\<rparr>\<rparr>"

section \<open>Theorems about \<^verbatim>\<open>feature.h\<close>\<close>

subsection \<open>Domains\<close>

lemma unat_kDomainSize: "unat kDomainSize = 2 ^ 27"
  by (simp add: kDomainSize_def)

lemma unat_Domain_begin:
  assumes "domain_id d \<le> 28"
  shows "unat (Domain_begin d) = 2 ^ 27 * unat (domain_id d)"
proof -
  have "unat (domain_id d) \<le> 28"
    using assms by (simp add: word_le_nat_alt)
  then have "unat kDomainSize * unat (domain_id d) < 2 ^ LENGTH(64)"
    by (simp add: unat_kDomainSize)
  then show ?thesis
    unfolding Domain_begin_def by (simp add: unat_mult_lem [THEN iffD1] unat_kDomainSize)
qed

lemma unat_ConvertToMe:
  assumes "domain_id d \<le> 28"
  shows "unat (ConvertToMe d n) = 2 ^ 27 * unat (domain_id d) + unat n mod 2 ^ 27"
proof -
  have le: "unat (domain_id d) \<le> 28"
    using assms by (simp add: word_le_nat_alt)
  have m: "unat (n mod kDomainSize) = unat n mod 2 ^ 27"
    by (simp add: unat_mod_distrib unat_kDomainSize)
  have "unat n mod 2 ^ 27 < (2 ^ 27 :: nat)"
    by simp
  with le have "unat (Domain_begin d) + unat (n mod kDomainSize) < 2 ^ LENGTH(64)"
    by (simp add: unat_Domain_begin [OF assms] m)
  then have "unat (Domain_begin d + n mod kDomainSize)
      = unat (Domain_begin d) + unat (n mod kDomainSize)"
    by (simp add: unat_add_lem [THEN iffD1])
  then show ?thesis
    by (simp add: ConvertToMe_def unat_Domain_begin [OF assms] m)
qed

lemma FeatureToDomainId_ConvertToMe:
  assumes "domain_id d \<le> 28"
  shows "FeatureToDomainId (ConvertToMe d n) = domain_id d"
proof -
  have "unat (FeatureToDomainId (ConvertToMe d n)) = unat (domain_id d)"
    by (simp add: FeatureToDomainId_def unat_div_distrib unat_kDomainSize
        unat_ConvertToMe [OF assms])
  then show ?thesis
    by (simp add: word_unat_eq_iff)
qed

lemma FeatureToIndexInDomain_ConvertToMe:
  assumes "domain_id d \<le> 28"
  shows "FeatureToIndexInDomain (ConvertToMe d n) = n mod 2 ^ 27"
proof -
  have "unat (FeatureToIndexInDomain (ConvertToMe d n)) = unat (n mod 2 ^ 27)"
    by (simp add: FeatureToIndexInDomain_def unat_mod_distrib unat_kDomainSize
        unat_ConvertToMe [OF assms])
  then show ?thesis
    by (simp add: word_unat_eq_iff)
qed

lemma ConvertPCFeatureToPcIndex_ConvertToMe:
  assumes "idx < 2 ^ 27"
  shows "ConvertPCFeatureToPcIndex (ConvertToMe kPCs idx) = Some idx"
proof -
  have d: "domain_id kPCs \<le> 28"
    by (simp add: kPCs_def)
  have i: "unat idx < 2 ^ 27"
    using assms by (simp add: word_less_nat_alt)
  have b: "unat (Domain_begin kPCs) = 2 ^ 27"
    using unat_Domain_begin [OF d] by (simp add: kPCs_def)
  have e: "unat (Domain_end kPCs) = 2 ^ 28"
    unfolding Domain_end_def using b
    by (simp add: unat_word_ariths unat_kDomainSize)
  have f: "unat (ConvertToMe kPCs idx) = 2 ^ 27 + unat idx"
    using unat_ConvertToMe [OF d, of idx] i by (simp add: kPCs_def)
  have c: "Contains kPCs (ConvertToMe kPCs idx)"
    using i by (simp add: Contains_def word_le_nat_alt word_less_nat_alt b e f)
  have "unat (ConvertToMe kPCs idx - Domain_begin kPCs) = unat idx"
    using c by (simp add: Contains_def unat_sub b f)
  then have "ConvertToMe kPCs idx - Domain_begin kPCs = idx"
    by (simp add: word_unat_eq_iff)
  with c show ?thesis
    by (simp add: ConvertPCFeatureToPcIndex_def)
qed

text \<open>
  Claim C6. For a declared domain \<open>d\<close> (\<open>domain_id d \<le> 28\<close>) and any number \<open>n\<close>, the
  feature \<open>ConvertToMe d n\<close> has domain id \<open>domain_id d\<close> and index \<open>n mod 2^27\<close> in its
  domain; and for \<open>idx < 2^27\<close> the feature \<open>kPCs.ConvertToMe(idx)\<close> is converted back to
  \<open>idx\<close> by \<^verbatim>\<open>ConvertPCFeatureToPcIndex\<close>, without a trap.
\<close>

theorem Domain_roundtrip:
  "(domain_id d \<le> 28 \<longrightarrow>
      FeatureToDomainId (ConvertToMe d n) = domain_id d
      \<and> FeatureToIndexInDomain (ConvertToMe d n) = n mod 2 ^ 27
      \<and> unat (FeatureToIndexInDomain (ConvertToMe d n)) = unat n mod 2 ^ 27)
   \<and> (idx < 2 ^ 27 \<longrightarrow> ConvertPCFeatureToPcIndex (ConvertToMe kPCs idx) = Some idx)"
  by (simp add: FeatureToDomainId_ConvertToMe FeatureToIndexInDomain_ConvertToMe
      ConvertPCFeatureToPcIndex_ConvertToMe unat_mod_distrib)

theorem Domain_roundtrip_witness:
  "domain_id kLastDomain \<le> 28
   \<and> FeatureToDomainId (ConvertToMe kLastDomain (2 ^ 27 + 3)) = 28
   \<and> FeatureToIndexInDomain (ConvertToMe kLastDomain (2 ^ 27 + 3)) = 3
   \<and> (12345 :: size_t) < 2 ^ 27
   \<and> ConvertPCFeatureToPcIndex (ConvertToMe kPCs 12345) = Some 12345"
  using Domain_roundtrip [of kLastDomain "2 ^ 27 + 3" 12345]
  by (simp add: kLastDomain_def)

subsection \<open>The 8-bit counter encoder\<close>

lemma bit_imp_le_unat:
  fixes w :: "'a::len word"
  assumes "bit w n"
  shows "2 ^ n \<le> unat w"
proof (rule ccontr)
  assume "\<not> 2 ^ n \<le> unat w"
  then have "take_bit n (unat w) = unat w"
    by (simp add: take_bit_nat_eq_self)
  then have "bit (unat w) n = bit (take_bit n (unat w)) n"
    by simp
  also have "\<dots> = False"
    by (simp add: bit_take_bit_iff)
  finally show False
    using assms by (simp add: bit_unsigned_iff)
qed

lemma not_bit_imp_less:
  fixes w :: "'a::len word"
  assumes "\<not> bit w n" and "unat w < 2 ^ Suc n"
  shows "unat w < 2 ^ n"
proof -
  have "unat w = take_bit (Suc n) (unat w)"
    using assms(2) by (simp add: take_bit_nat_eq_self)
  also have "\<dots> = take_bit n (unat w)"
    using assms(1) by (simp add: take_bit_Suc_from_most bit_unsigned_iff)
  finally have "unat w = take_bit n (unat w)" .
  moreover have "take_bit n (unat w) < 2 ^ n"
    by simp
  ultimately show ?thesis
    by simp
qed

lemma clz_below_bounds:
  fixes w :: "'a::len word"
  assumes "w \<noteq> 0" and "unat w < 2 ^ n"
  shows "clz_below w n < n \<and> 2 ^ (n - 1 - clz_below w n) \<le> unat w
         \<and> unat w < 2 ^ (n - clz_below w n)"
  using assms
proof (induction n)
  case 0
  then have "unat w = 0" by simp
  with \<open>w \<noteq> 0\<close> show ?case by (simp add: unat_eq_0)
next
  case (Suc n)
  show ?case
  proof (cases "bit w n")
    case True
    with Suc.prems show ?thesis
      by (simp add: bit_imp_le_unat)
  next
    case False
    with Suc.prems have "unat w < 2 ^ n"
      by (simp add: not_bit_imp_less)
    with Suc.IH Suc.prems False show ?thesis
      by (simp add: Suc_diff_le less_imp_le)
  qed
qed

lemma floor_log2_eqI:
  assumes "2 ^ k \<le> x" and "x < 2 ^ Suc k"
  shows "floor_log2 x = k"
proof -
  have pos: "0 < x"
    using assms(1) by (metis gr0I not_less pos2 zero_less_power)
  have "floorlog 2 x \<le> Suc k"
    using assms(2) by (intro floorlog_leI) auto
  moreover have "Suc k \<le> floorlog 2 x"
    using assms(1) by (intro floorlog_ge_SucI) auto
  ultimately have "floorlog 2 x = Suc k"
    by simp
  with pos show ?thesis
    by (simp add: floorlog_def floor_log2_def)
qed

lemma builtin_clz_log2:
  fixes v :: uint8_t
  assumes "v \<noteq> 0"
  shows "builtin_clz (ucast v) \<le> 31"
    and "31 - builtin_clz (ucast v) = floor_log2 (unat v)"
    and "floor_log2 (unat v) < 8"
proof -
  let ?w = "ucast v :: uint32_t"
  have "unat v < 2 ^ 8"
    using unsigned_less [of v] by simp
  then have u: "unat ?w = unat v"
    by (simp add: unsigned_ucast_eq take_bit_nat_eq_self)
  have nz: "?w \<noteq> 0"
    using assms u by (metis unat_eq_0)
  have lt: "unat ?w < 2 ^ 32"
    using u \<open>unat v < 2 ^ 8\<close> by simp
  note b = clz_below_bounds [OF nz lt]
  from b show c: "builtin_clz (ucast v) \<le> 31"
    by (simp add: builtin_clz_def)
  have s: "32 - builtin_clz ?w = Suc (31 - builtin_clz ?w)"
    using c by arith
  from b have "2 ^ (31 - builtin_clz ?w) \<le> unat v"
    by (simp add: builtin_clz_def u)
  from b have "unat v < 2 ^ (32 - builtin_clz ?w)"
    by (simp add: builtin_clz_def u)
  then have "unat v < 2 ^ Suc (31 - builtin_clz ?w)"
    by (simp only: s)
  with \<open>2 ^ (31 - builtin_clz ?w) \<le> unat v\<close>
  show l: "31 - builtin_clz (ucast v) = floor_log2 (unat v)"
    by (simp only: floor_log2_eqI)
  have "(2::nat) ^ (31 - builtin_clz ?w) < 2 ^ 8"
    using \<open>2 ^ (31 - builtin_clz ?w) \<le> unat v\<close> \<open>unat v < 2 ^ 8\<close> by (rule le_less_trans)
  then have "31 - builtin_clz ?w < 8"
    using power_less_imp_less_exp [of 2 "31 - builtin_clz ?w" 8] by simp
  with l show "floor_log2 (unat v) < 8"
    by simp
qed

lemma Convert8bitCounterToNumber_eq:
  assumes "v \<noteq> 0"
  shows "Convert8bitCounterToNumber p v = Some (p * 8 + of_nat (floor_log2 (unat v)))"
proof -
  let ?c = "builtin_clz (ucast v)"
  have c: "?c \<le> 31"
    using assms by (rule builtin_clz_log2)
  have "(4 * 8 - 1 - of_nat ?c :: size_t) = of_nat (31 - ?c)"
    using c by simp
  moreover have "(ucast (ucast (of_nat (31 - ?c) :: size_t) :: uint32_t) :: size_t)
      = of_nat (31 - ?c)"
  proof -
    have lt: "31 - ?c < 2 ^ 32"
      by (rule le_less_trans [of _ 31]) simp_all
    have "unat (of_nat (31 - ?c) :: size_t) = 31 - ?c"
      using lt by (simp add: unat_of_nat)
    then have "unat (ucast (of_nat (31 - ?c) :: size_t) :: uint32_t) = 31 - ?c"
      using lt by (simp add: unsigned_ucast_eq take_bit_nat_eq_self)
    then have "unat (ucast (ucast (of_nat (31 - ?c) :: size_t) :: uint32_t) :: size_t)
        = 31 - ?c"
      using lt by (simp add: unsigned_ucast_eq [where 'c = 64] take_bit_nat_eq_self)
    then show ?thesis
      by (metis of_nat_unat ucast_id)
  qed
  ultimately show ?thesis
    using assms
    by (simp add: Convert8bitCounterToNumber_def Let_def builtin_clz_log2(2))
qed

lemma Convert8bitCounterToNumber_range:
  "{r. \<exists>v. v \<noteq> 0 \<and> Convert8bitCounterToNumber p v = Some r}
     = (\<lambda>k. p * 8 + of_nat k) ` {..<8}"
proof (intro set_eqI iffI)
  fix r
  assume "r \<in> {r. \<exists>v. v \<noteq> 0 \<and> Convert8bitCounterToNumber p v = Some r}"
  then obtain v where "v \<noteq> 0" and "Convert8bitCounterToNumber p v = Some r"
    by blast
  then have "r = p * 8 + of_nat (floor_log2 (unat v))"
    by (simp add: Convert8bitCounterToNumber_eq)
  moreover have "floor_log2 (unat v) < 8"
    using \<open>v \<noteq> 0\<close> by (rule builtin_clz_log2)
  ultimately show "r \<in> (\<lambda>k. p * 8 + of_nat k) ` {..<8}"
    by blast
next
  fix r
  assume "r \<in> (\<lambda>k. p * 8 + of_nat k) ` {..<8}"
  then obtain k :: nat where k: "k < 8" and r: "r = p * 8 + of_nat k"
    by blast
  let ?v = "2 ^ k :: uint8_t"
  have "(2::nat) ^ k < 2 ^ 8"
    using k by (simp only: power_strict_increasing_iff)
  then have lt: "(2::nat) ^ k < 2 ^ LENGTH(8)"
    by simp
  have "unat (of_nat (2 ^ k) :: uint8_t) = 2 ^ k mod 2 ^ LENGTH(8)"
    by (rule unat_of_nat)
  also have "\<dots> = 2 ^ k"
    using lt by (rule mod_less)
  finally have "unat (of_nat (2 ^ k) :: uint8_t) = 2 ^ k" .
  then have u: "unat ?v = 2 ^ k"
    by (simp only: of_nat_power of_nat_numeral)
  then have nz: "?v \<noteq> 0"
    by (metis power_not_zero unat_0 zero_neq_numeral)
  have "floor_log2 (unat ?v) = k"
    unfolding u by (rule floor_log2_eqI) simp_all
  then have "Convert8bitCounterToNumber p ?v = Some r"
    using nz r by (simp add: Convert8bitCounterToNumber_eq)
  with nz show "r \<in> {r. \<exists>v. v \<noteq> 0 \<and> Convert8bitCounterToNumber p v = Some r}"
    by blast
qed

lemma Convert8bitCounterToNumber_inj:
  "inj_on (\<lambda>k. (p :: size_t) * 8 + of_nat k) {..<8}"
proof (rule inj_onI)
  fix j k :: nat
  assume "j \<in> {..<8}" and "k \<in> {..<8}"
  then have "j < 2 ^ LENGTH(64)" and "k < 2 ^ LENGTH(64)"
    by simp_all
  moreover assume "p * 8 + of_nat j = p * 8 + of_nat k"
  then have "(of_nat j :: size_t) = of_nat k"
    by simp
  ultimately show "j = k"
    by (metis unat_of_nat mod_less)
qed

lemma unat_Convert8bitCounterToNumber:
  assumes "unat p < 2 ^ 61" and "k < 8"
  shows "unat (p * 8 + of_nat k :: size_t) = unat p * 8 + k"
proof -
  have "unat (p * 8) = unat p * 8"
    using assms(1) by (simp add: unat_word_ariths)
  moreover have "unat (of_nat k :: size_t) = k"
    using assms(2) by (simp add: unat_of_nat)
  ultimately show ?thesis
    using assms by (simp add: unat_word_ariths)
qed

text \<open>
  Claim C7. \<^verbatim>\<open>Convert8bitCounterToNumber(p, v)\<close> traps exactly when \<open>v = 0\<close>. For
  \<open>1 \<le> v \<le> 255\<close> it returns \<open>p * 8 + \<lfloor>log\<^sub>2 v\<rfloor>\<close>, computed in \<^verbatim>\<open>size_t\<close> as the
  source does; while \<open>p * 8\<close> fits in 64 bits (\<open>p < 2^61\<close>) this is the same number without
  any wrap-around. For each \<open>p\<close> the results over all \<open>v\<close> in \<open>[1, 255]\<close> are exactly 8
  distinct values.
\<close>

theorem Convert8bitCounterToNumber_log2:
  "(Convert8bitCounterToNumber p v = None \<longleftrightarrow> v = 0)
   \<and> (v \<noteq> 0 \<longrightarrow>
        Convert8bitCounterToNumber p v
          = Some (p * 8 + of_nat (nat \<lfloor>log 2 (real (unat v))\<rfloor>)))
   \<and> (v \<noteq> 0 \<and> unat p < 2 ^ 61 \<longrightarrow>
        map_option unat (Convert8bitCounterToNumber p v)
          = Some (unat p * 8 + nat \<lfloor>log 2 (real (unat v))\<rfloor>))
   \<and> card {r. \<exists>v. v \<noteq> 0 \<and> Convert8bitCounterToNumber p v = Some r} = 8"
proof (intro conjI impI)
  show "Convert8bitCounterToNumber p v = None \<longleftrightarrow> v = 0"
    by (simp add: Convert8bitCounterToNumber_def Let_def)
  show "Convert8bitCounterToNumber p v
      = Some (p * 8 + of_nat (nat \<lfloor>log 2 (real (unat v))\<rfloor>))" if "v \<noteq> 0"
    using that by (simp add: Convert8bitCounterToNumber_eq floor_log2_def)
  show "map_option unat (Convert8bitCounterToNumber p v)
      = Some (unat p * 8 + nat \<lfloor>log 2 (real (unat v))\<rfloor>)"
    if "v \<noteq> 0 \<and> unat p < 2 ^ 61"
  proof -
    have e: "nat \<lfloor>log 2 (real (unat v))\<rfloor> = floor_log2 (unat v)"
      by (simp only: floor_log2_def)
    have "floor_log2 (unat v) < 8"
      using that by (simp add: builtin_clz_log2)
    with that show ?thesis
      unfolding e
      by (simp add: Convert8bitCounterToNumber_eq unat_Convert8bitCounterToNumber)
  qed
  show "card {r. \<exists>v. v \<noteq> 0 \<and> Convert8bitCounterToNumber p v = Some r} = 8"
    by (simp add: Convert8bitCounterToNumber_range card_image Convert8bitCounterToNumber_inj)
qed

theorem Convert8bitCounterToNumber_log2_witness:
  "(3 :: uint8_t) \<noteq> 0 \<and> unat (7 :: size_t) < 2 ^ 61
   \<and> Convert8bitCounterToNumber 7 3
       = Some (7 * 8 + of_nat (nat \<lfloor>log 2 (real (unat (3 :: uint8_t)))\<rfloor>))
   \<and> map_option unat (Convert8bitCounterToNumber 7 3)
       = Some (unat (7 :: size_t) * 8 + nat \<lfloor>log 2 (real (unat (3 :: uint8_t)))\<rfloor>)
   \<and> Convert8bitCounterToNumber 7 3 = Some 57
   \<and> Convert8bitCounterToNumber 7 0 = None"
proof -
  have n: "(3 :: uint8_t) \<noteq> 0"
    by simp
  have p: "unat (7 :: size_t) < 2 ^ 61"
    by simp
  have c: "Convert8bitCounterToNumber 7 3 = Some 57"
    by code_simp
  have z: "Convert8bitCounterToNumber 7 0 = None"
    using Convert8bitCounterToNumber_log2 [of 7 0] by blast
  show ?thesis
    using Convert8bitCounterToNumber_log2 [of 7 3] n p c z by blast
qed

subsection \<open>The Hamming encoder\<close>

lemma builtin_popcountll_0: "builtin_popcountll 0 = 0"
  by (simp add: builtin_popcountll_def)

text \<open>
  Claim C10. \<^verbatim>\<open>ABToCmpHamming\<close> has no trap and no check of \<open>a \<noteq> b\<close>: it is a total
  function, and at equal arguments it returns \<open>popcount(0) - 1\<close> wrapped to unsigned,
  which is \<open>2^64 - 1\<close> and so not a number below 64.
\<close>

theorem ABToCmpHamming_same:
  "ABToCmpHamming a a = - 1
   \<and> unat (ABToCmpHamming a a) = 2 ^ 64 - 1
   \<and> \<not> unat (ABToCmpHamming a a) < 64"
proof -
  have "unat (- 1 :: 64 word) = 2 ^ 64 - 1"
    by (simp add: unsigned_minus_1_eq_mask mask_eq_exp_minus_1)
  then show ?thesis
    by (simp add: ABToCmpHamming_def builtin_popcountll_0)
qed

section \<open>Theorems about \<^verbatim>\<open>concurrent_byteset.h\<close>\<close>

subsection \<open>Saturated increment\<close>

lemma unat_counter_Suc:
  fixes counter :: uint8_t
  assumes "counter \<noteq> 255"
  shows "unat (counter + 1) = unat counter + 1" and "unat counter < 255"
proof -
  have "unat counter < 2 ^ LENGTH(8)"
    by (rule unsigned_less)
  moreover have "unat counter \<noteq> 255"
  proof
    assume "unat counter = 255"
    then have "unat counter = unat (255 :: uint8_t)"
      by simp
    then have "counter = 255"
      by (simp only: word_unat_eq_iff)
    with assms show False ..
  qed
  ultimately show lt: "unat counter < 255"
    by simp
  then have "unat counter + unat (1 :: uint8_t) < 2 ^ LENGTH(8)"
    by simp
  then show "unat (counter + 1) = unat counter + 1"
    by (simp add: unat_add_lem [THEN iffD1])
qed

lemma SaturatedIncrement_step:
  assumes "idx < kSize" and "length bytes = kSize"
  shows "\<exists>bytes'. SaturatedIncrement kSize idx bytes = Some bytes'
           \<and> length bytes' = kSize
           \<and> unat (bytes' ! idx) = min (unat (bytes ! idx) + 1) 255"
proof (cases "bytes ! idx = 255")
  case True
  with assms show ?thesis
    by (simp add: SaturatedIncrement_def)
next
  case False
  then have "unat (bytes ! idx + 1) = unat (bytes ! idx) + 1" and "unat (bytes ! idx) < 255"
    by (rule unat_counter_Suc)+
  with False assms show ?thesis
    by (simp add: SaturatedIncrement_def)
qed

lemma SaturatedIncrement_times_value:
  assumes "idx < kSize" and "length bytes = kSize"
  shows "\<exists>bytes'. SaturatedIncrement_times kSize idx k bytes = Some bytes'
           \<and> length bytes' = kSize
           \<and> unat (bytes' ! idx) = min (unat (bytes ! idx) + k) 255"
  using assms
proof (induction k arbitrary: bytes)
  case 0
  have "unat (bytes ! idx) < 2 ^ LENGTH(8)"
    by (rule unsigned_less)
  with 0 show ?case
    by simp
next
  case (Suc k)
  from SaturatedIncrement_step [OF Suc.prems]
  obtain b1 where b1: "SaturatedIncrement kSize idx bytes = Some b1"
    and l1: "length b1 = kSize"
    and v1: "unat (b1 ! idx) = min (unat (bytes ! idx) + 1) 255"
    by blast
  from Suc.IH [OF Suc.prems(1) l1]
  obtain b2 where b2: "SaturatedIncrement_times kSize idx k b1 = Some b2"
    and l2: "length b2 = kSize"
    and v2: "unat (b2 ! idx) = min (unat (b1 ! idx) + k) 255"
    by blast
  have "min (min (unat (bytes ! idx) + 1) 255 + k) 255 = min (unat (bytes ! idx) + Suc k) 255"
    by simp
  with b1 b2 l2 v1 v2 show ?case
    by simp
qed

text \<open>
  Claim C5. For \<open>idx < kSize\<close>, \<open>k\<close> calls of \<^verbatim>\<open>SaturatedIncrement(idx)\<close> on a cleared
  set all return and leave byte \<open>idx\<close> at \<open>min(k, 255)\<close>, for every \<open>k\<close>.
\<close>

theorem SaturatedIncrement_saturates:
  assumes "idx < kSize"
  shows "\<exists>bytes. SaturatedIncrement_times kSize idx k (clear kSize bytes0) = Some bytes
           \<and> unat (bytes ! idx) = min k 255"
proof -
  have "length (clear kSize bytes0) = kSize"
    by (simp add: clear_def)
  from SaturatedIncrement_times_value [OF assms this, of k] assms show ?thesis
    by (auto simp: clear_def)
qed

theorem SaturatedIncrement_saturates_witness:
  "(10 :: nat) < 64
   \<and> (\<exists>bytes. SaturatedIncrement_times 64 10 300 (clear 64 []) = Some bytes
          \<and> unat (bytes ! 10) = 255)"
  using SaturatedIncrement_saturates [of 10 64 300 "[]"] by simp

subsection \<open>The word-wise drain\<close>

lemma bit_little_endian:
  "bit (little_endian bs) n \<longleftrightarrow>
     n < 64 \<and> n div 8 < length bs \<and> bit (bs ! (n div 8)) (n mod 8)"
proof (induction bs arbitrary: n)
  case Nil
  show ?case by simp
next
  case (Cons b bs)
  show ?case
  proof (cases "n < 8")
    case True
    then show ?thesis
      by (simp add: bit_or_iff bit_ucast_iff bit_push_bit_iff CHAR_BIT_def)
  next
    case False
    then have ge: "8 \<le> n" by simp
    then have d: "n div 8 = Suc ((n - 8) div 8)" and m: "n mod 8 = (n - 8) mod 8"
      by (simp_all add: le_div_geq le_mod_geq)
    have nb: "\<not> bit b n"
      using False bit_imp_le_length [of b n] by auto
    show ?thesis
      using ge nb
      by (auto simp add: bit_or_iff bit_ucast_iff bit_push_bit_iff CHAR_BIT_def Cons.IH d m
          dest: bit_imp_le_length)
  qed
qed

lemma little_endian_byte:
  assumes "pos < length bs" and "length bs \<le> 8"
  shows "(ucast (drop_bit (pos * CHAR_BIT) (little_endian bs)) :: uint8_t) = bs ! pos"
proof (rule bit_word_eqI)
  fix n
  assume "n < LENGTH(8)"
  then have n: "n < 8" by simp
  with assms have "pos * 8 + n < 64"
    by simp
  moreover from n have "(pos * 8 + n) div 8 = pos" and "(pos * 8 + n) mod 8 = n"
    by simp_all
  ultimately show "bit (ucast (drop_bit (pos * CHAR_BIT) (little_endian bs)) :: uint8_t) n
      \<longleftrightarrow> bit (bs ! pos) n"
    using assms n
    by (simp add: bit_ucast_iff bit_drop_bit_eq bit_little_endian CHAR_BIT_def)
qed

lemma little_endian_zeros:
  assumes "\<forall>b \<in> set bs. b = 0"
  shows "little_endian bs = 0"
  using assms by (induction bs) simp_all

lemma little_endian_eq_0_iff:
  assumes "length bs \<le> 8"
  shows "little_endian bs = 0 \<longleftrightarrow> (\<forall>pos < length bs. bs ! pos = 0)"
proof
  assume z: "little_endian bs = 0"
  show "\<forall>pos < length bs. bs ! pos = 0"
  proof (intro allI impI)
    fix pos
    assume "pos < length bs"
    from little_endian_byte [OF this assms] z show "bs ! pos = 0"
      by simp
  qed
next
  assume "\<forall>pos < length bs. bs ! pos = 0"
  then have "\<forall>b \<in> set bs. b = 0"
    by (auto simp: in_set_conv_nth)
  then show "little_endian bs = 0"
    by (rule little_endian_zeros)
qed

lemma memcpy_word_byte:
  assumes "ptr + kWordSize \<le> length bytes" and "pos < kWordSize"
  shows "(ucast (drop_bit (pos * CHAR_BIT) (memcpy_word bytes ptr)) :: uint8_t)
     = bytes ! (ptr + pos)"
proof -
  let ?bs = "take kWordSize (drop ptr bytes)"
  have l: "length ?bs = 8"
    using assms(1) by (simp add: kWordSize_def)
  with assms(2) have "pos < length ?bs" and "length ?bs \<le> 8"
    by (simp_all add: kWordSize_def)
  then have "(ucast (drop_bit (pos * CHAR_BIT) (little_endian ?bs)) :: uint8_t) = ?bs ! pos"
    by (rule little_endian_byte)
  also have "\<dots> = bytes ! (ptr + pos)"
    using assms by simp
  finally show ?thesis
    by (simp only: memcpy_word_def)
qed

lemma memcpy_word_eq_0_iff:
  assumes "ptr + kWordSize \<le> length bytes"
  shows "memcpy_word bytes ptr = 0 \<longleftrightarrow> (\<forall>pos < kWordSize. bytes ! (ptr + pos) = 0)"
proof -
  let ?bs = "take kWordSize (drop ptr bytes)"
  have l: "length ?bs = kWordSize"
    using assms by simp
  then have "length ?bs \<le> 8"
    by (simp add: kWordSize_def)
  then have "little_endian ?bs = 0 \<longleftrightarrow> (\<forall>pos < length ?bs. ?bs ! pos = 0)"
    by (rule little_endian_eq_0_iff)
  also have "\<dots> \<longleftrightarrow> (\<forall>pos < kWordSize. bytes ! (ptr + pos) = 0)"
    using assms unfolding l by simp
  finally show ?thesis
    by (simp only: memcpy_word_def)
qed

lemma nonzero_bytes_empty: "b \<le> a \<Longrightarrow> nonzero_bytes bytes a b = []"
  by (simp add: nonzero_bytes_def)

lemma nonzero_bytes_first:
  "a < b \<Longrightarrow> nonzero_bytes bytes a b =
     (if bytes ! a \<noteq> 0 then [(a, bytes ! a)] else []) @ nonzero_bytes bytes (Suc a) b"
  by (simp add: nonzero_bytes_def upt_conv_Cons)

lemma nonzero_bytes_append:
  assumes "a \<le> m" and "m \<le> b"
  shows "nonzero_bytes bytes a b = nonzero_bytes bytes a m @ nonzero_bytes bytes m b"
proof -
  from assms have "[a..<b] = [a..<m] @ [m..<b]"
    by (metis le_Suc_ex upt_add_eq_append)
  then show ?thesis
    by (simp add: nonzero_bytes_def)
qed

lemma nonzero_bytes_all_zero:
  assumes "\<forall>i. a \<le> i \<and> i < b \<longrightarrow> bytes ! i = 0"
  shows "nonzero_bytes bytes a b = []"
  using assms by (auto simp: nonzero_bytes_def filter_empty_conv)

lemma nonzero_bytes_cong:
  assumes "\<forall>i. a \<le> i \<and> i < b \<longrightarrow> bytes ! i = bytes' ! i"
  shows "nonzero_bytes bytes a b = nonzero_bytes bytes' a b"
proof -
  have "filter (\<lambda>i. bytes ! i \<noteq> 0) [a..<b] = filter (\<lambda>i. bytes' ! i \<noteq> 0) [a..<b]"
    using assms by (intro filter_cong) auto
  moreover have "map (\<lambda>i. (i, bytes ! i)) (filter (\<lambda>i. bytes' ! i \<noteq> 0) [a..<b])
      = map (\<lambda>i. (i, bytes' ! i)) (filter (\<lambda>i. bytes' ! i \<noteq> 0) [a..<b])"
    using assms by (intro map_cong) auto
  ultimately show ?thesis
    by (simp add: nonzero_bytes_def)
qed

lemma run_actions_append:
  "run_actions action (xs @ ys) s =
     (case run_actions action xs s of None \<Rightarrow> None | Some s' \<Rightarrow> run_actions action ys s')"
  by (induction xs arbitrary: s) (auto split: option.splits)

lemma byte_loop_run:
  assumes "ptr + kWordSize \<le> length bytes" and "pos \<le> kWordSize"
  shows "byte_loop action ptr (memcpy_word bytes ptr) pos s
     = run_actions action (nonzero_bytes bytes (ptr + pos) (ptr + kWordSize)) s"
  using assms(2)
proof (induction "kWordSize - pos" arbitrary: pos s)
  case 0
  then have "pos = kWordSize" by simp
  then show ?case
    by (subst byte_loop.simps) (simp add: nonzero_bytes_empty)
next
  case (Suc n)
  then have lt: "pos < kWordSize" by simp
  have v: "(ucast (drop_bit (pos * CHAR_BIT) (memcpy_word bytes ptr)) :: uint8_t)
      = bytes ! (ptr + pos)"
    using assms(1) lt by (rule memcpy_word_byte)
  have nz: "nonzero_bytes bytes (ptr + pos) (ptr + kWordSize) =
      (if bytes ! (ptr + pos) \<noteq> 0 then [(ptr + pos, bytes ! (ptr + pos))] else [])
      @ nonzero_bytes bytes (Suc (ptr + pos)) (ptr + kWordSize)"
    using lt by (intro nonzero_bytes_first) simp
  have IH: "byte_loop action ptr (memcpy_word bytes ptr) (Suc pos) s'
      = run_actions action (nonzero_bytes bytes (Suc (ptr + pos)) (ptr + kWordSize)) s'" for s'
    using Suc.hyps(1) [of "Suc pos" s'] Suc.hyps(2) lt by simp
  show ?case
    by (subst byte_loop.simps) (simp add: lt v nz IH Let_def split: option.splits)
qed

lemma zero_range_length [simp]: "length (zero_range bytes a b) = length bytes"
  by (simp add: zero_range_def)

lemma zero_range_nth:
  "i < length bytes \<Longrightarrow> zero_range bytes a b ! i = (if a \<le> i \<and> i < b then 0 else bytes ! i)"
  by (simp add: zero_range_def)

lemma memset_word_length [simp]: "length (memset_word bytes ptr) = length bytes"
  by (simp add: memset_word_def)

lemma memset_word_nth:
  "i < length bytes \<Longrightarrow>
     memset_word bytes ptr ! i = (if ptr \<le> i \<and> i < ptr + kWordSize then 0 else bytes ! i)"
  by (simp add: memset_word_def)

lemma zero_range_empty: "b \<le> a \<Longrightarrow> zero_range bytes a b = bytes"
  by (rule nth_equalityI) (auto simp: zero_range_nth)

lemma word_loop_run:
  assumes "e \<le> length bytes" and "ptr mod kWordSize = 0" and "e mod kWordSize = 0"
  shows "word_loop action ptr e bytes s =
     (case run_actions action (nonzero_bytes bytes ptr e) s of
        None \<Rightarrow> None
      | Some s' \<Rightarrow> Some (zero_range bytes ptr e, s'))"
  using assms
proof (induction action ptr e bytes s rule: word_loop.induct)
  case (1 action ptr e bytes s)
  show ?case
  proof (cases "ptr < e")
    case False
    then show ?thesis
      by (subst word_loop.simps) (simp add: nonzero_bytes_empty zero_range_empty)
  next
    case True
    have "kWordSize dvd e - ptr"
      using "1.prems" by (simp add: mod_eq_0_iff_dvd)
    with True have next_le: "ptr + kWordSize \<le> e"
      by (metis add.commute dvd_imp_le nat_less_le zero_less_diff
          le_add_diff_inverse2 add_le_cancel_right)
    with "1.prems" have in_bounds: "ptr + kWordSize \<le> length bytes"
      by simp
    have next_mod: "(ptr + kWordSize) mod kWordSize = 0"
      using "1.prems" by simp
    have split: "nonzero_bytes bytes ptr e
        = nonzero_bytes bytes ptr (ptr + kWordSize) @ nonzero_bytes bytes (ptr + kWordSize) e"
      using next_le by (intro nonzero_bytes_append) simp_all
    show ?thesis
    proof (cases "memcpy_word bytes ptr = 0")
      case z: True
      then have zeros: "\<forall>pos < kWordSize. bytes ! (ptr + pos) = 0"
        using in_bounds by (simp add: memcpy_word_eq_0_iff)
      have zi: "bytes ! i = 0" if "ptr \<le> i" and "i < ptr + kWordSize" for i
      proof -
        from that have "i - ptr < kWordSize" by simp
        with zeros have "bytes ! (ptr + (i - ptr)) = 0" by blast
        with that show ?thesis by simp
      qed
      then have n0: "nonzero_bytes bytes ptr (ptr + kWordSize) = []"
        by (intro nonzero_bytes_all_zero) simp
      have zr: "zero_range bytes (ptr + kWordSize) e = zero_range bytes ptr e"
        by (rule nth_equalityI) (auto simp: zero_range_nth zi)
      have "word_loop action ptr e bytes s = word_loop action (ptr + kWordSize) e bytes s"
        using True z by (subst word_loop.simps) simp
      also have "\<dots> = (case run_actions action (nonzero_bytes bytes (ptr + kWordSize) e) s of
          None \<Rightarrow> None | Some s' \<Rightarrow> Some (zero_range bytes (ptr + kWordSize) e, s'))"
        using True z "1.prems" next_mod by (intro "1.IH"(1)) simp_all
      finally show ?thesis
        by (simp add: split n0 zr split: option.splits)
    next
      case nz: False
      let ?bytes' = "memset_word bytes ptr"
      have same: "nonzero_bytes ?bytes' (ptr + kWordSize) e = nonzero_bytes bytes (ptr + kWordSize) e"
        using "1.prems" by (intro nonzero_bytes_cong) (simp add: memset_word_nth)
      have zr: "zero_range ?bytes' (ptr + kWordSize) e = zero_range bytes ptr e"
        using next_le by (intro nth_equalityI) (auto simp: zero_range_nth memset_word_nth)
      have bl: "byte_loop action ptr (memcpy_word bytes ptr) 0 s
          = run_actions action (nonzero_bytes bytes ptr (ptr + kWordSize)) s"
        using byte_loop_run [OF in_bounds, of 0 action s] by simp
      show ?thesis
      proof (cases "run_actions action (nonzero_bytes bytes ptr (ptr + kWordSize)) s")
        case None
        with True nz bl show ?thesis
          by (subst word_loop.simps) (simp add: split run_actions_append)
      next
        case (Some s')
        have "word_loop action ptr e bytes s = word_loop action (ptr + kWordSize) e ?bytes' s'"
          using True nz bl Some by (subst word_loop.simps) simp
        also have "\<dots> = (case run_actions action (nonzero_bytes ?bytes' (ptr + kWordSize) e) s' of
            None \<Rightarrow> None | Some s'' \<Rightarrow> Some (zero_range ?bytes' (ptr + kWordSize) e, s''))"
          using True nz "1.prems" next_mod bl Some
          by (intro "1.IH"(2) [where x = "memcpy_word bytes ptr"]) simp_all
        finally show ?thesis
          by (simp add: split run_actions_append Some same zr split: option.splits)
      qed
    qed
  qed
qed

lemma mod_kWordSize:
  assumes "n mod kSizeMultiple = 0"
  shows "n mod kWordSize = 0"
proof -
  from assms have "64 dvd n"
    by (simp add: kSizeMultiple_def mod_eq_0_iff_dvd)
  then have "8 dvd n"
    by (rule dvd_trans [rotated]) simp
  then show ?thesis
    by (simp add: kWordSize_def)
qed

lemma ForEachNonZeroByte_run:
  assumes "length bytes = kSize"
    and "from_idx mod kSizeMultiple = 0" and "to_idx mod kSizeMultiple = 0"
    and "to_idx \<le> kSize"
  shows "ForEachNonZeroByte kSize action from_idx to_idx bytes s =
     (case run_actions action (nonzero_bytes bytes from_idx to_idx) s of
        None \<Rightarrow> None
      | Some s' \<Rightarrow> Some (zero_range bytes from_idx to_idx, s'))"
proof -
  have "word_loop action from_idx to_idx bytes s =
     (case run_actions action (nonzero_bytes bytes from_idx to_idx) s of
        None \<Rightarrow> None
      | Some s' \<Rightarrow> Some (zero_range bytes from_idx to_idx, s'))"
    using assms by (intro word_loop_run mod_kWordSize) simp_all
  with assms show ?thesis
    by (simp add: ForEachNonZeroByte_def)
qed

lemma run_actions_total:
  assumes "\<forall>i v s. action i v s \<noteq> None"
  shows "run_actions action ivs s \<noteq> None"
  using assms by (induction ivs arbitrary: s) (auto split: option.splits)

lemma ForEachNonZeroByte_trap_iff:
  assumes "length bytes = kSize" and "\<forall>i v s. action i v s \<noteq> None"
  shows "ForEachNonZeroByte kSize action from_idx to_idx bytes s = None \<longleftrightarrow>
     from_idx mod 64 \<noteq> 0 \<or> to_idx mod 64 \<noteq> 0 \<or> to_idx > kSize"
proof (cases "from_idx mod 64 \<noteq> 0 \<or> to_idx mod 64 \<noteq> 0 \<or> to_idx > kSize")
  case True
  then show ?thesis
    by (auto simp: ForEachNonZeroByte_def kSizeMultiple_def)
next
  case False
  then have "ForEachNonZeroByte kSize action from_idx to_idx bytes s =
     (case run_actions action (nonzero_bytes bytes from_idx to_idx) s of
        None \<Rightarrow> None
      | Some s' \<Rightarrow> Some (zero_range bytes from_idx to_idx, s'))"
    using assms(1) by (intro ForEachNonZeroByte_run) (simp_all add: kSizeMultiple_def)
  moreover have "run_actions action (nonzero_bytes bytes from_idx to_idx) s \<noteq> None"
    using assms(2) by (rule run_actions_total)
  ultimately show ?thesis
    using False by (auto split: option.splits)
qed

lemma run_actions_record_call: "run_actions record_call ivs tr = Some (tr @ ivs)"
  by (induction ivs arbitrary: tr) (simp_all add: record_call_def)

lemma ForEachNonZeroByte_record_call:
  assumes "length bytes = kSize"
    and "from_idx mod kSizeMultiple = 0" and "to_idx mod kSizeMultiple = 0"
    and "to_idx \<le> kSize"
  shows "ForEachNonZeroByte kSize record_call from_idx to_idx bytes tr =
     Some (zero_range bytes from_idx to_idx, tr @ nonzero_bytes bytes from_idx to_idx)"
  using assms by (simp add: ForEachNonZeroByte_run run_actions_record_call)

lemma Set_calls_append:
  "Set_calls kSize (cs @ ds) bytes =
     (case Set_calls kSize cs bytes of None \<Rightarrow> None | Some bytes' \<Rightarrow> Set_calls kSize ds bytes')"
  by (induction cs arbitrary: bytes) (auto split: option.splits)

lemma last_written_Nil: "last_written [] i = 0"
  by (simp add: last_written_def)

lemma last_written_snoc:
  "last_written (cs @ [c]) i = (if fst c = i then snd c else last_written cs i)"
  by (simp add: last_written_def Let_def)

lemma Set_calls_value:
  assumes "\<forall>c \<in> set calls. fst c < kSize"
  shows "\<exists>bytes. Set_calls kSize calls (clear kSize bytes0) = Some bytes
           \<and> length bytes = kSize
           \<and> (\<forall>i < kSize. bytes ! i = last_written calls i)"
  using assms
proof (induction calls rule: rev_induct)
  case Nil
  show ?case
    by (simp add: clear_def last_written_Nil)
next
  case (snoc c calls)
  then obtain bytes where b: "Set_calls kSize calls (clear kSize bytes0) = Some bytes"
    and l: "length bytes = kSize"
    and v: "\<forall>i < kSize. bytes ! i = last_written calls i"
    by auto
  from snoc.prems have c: "fst c < kSize"
    by simp
  have "Set_calls kSize (calls @ [c]) (clear kSize bytes0) = Some (bytes[fst c := snd c])"
    using b c by (simp add: Set_calls_append Set_def)
  moreover have "\<forall>i < kSize. bytes[fst c := snd c] ! i = last_written (calls @ [c]) i"
    using l v c by (auto simp: last_written_snoc nth_list_update)
  ultimately show ?case
    using l by simp
qed

lemma zero_range_all: "zero_range bytes 0 (length bytes) = replicate (length bytes) 0"
  by (rule nth_equalityI) (simp_all add: zero_range_nth)

lemma nonzero_bytes_replicate: "nonzero_bytes (replicate n 0) 0 n = []"
  by (rule nonzero_bytes_all_zero) simp

lemma distinct_nonzero_bytes: "distinct (nonzero_bytes bytes a b)"
proof -
  have "distinct (map fst (nonzero_bytes bytes a b))"
    by (simp add: nonzero_bytes_def comp_def)
  then show ?thesis
    by (rule distinct_map [THEN iffD1, THEN conjunct1])
qed

lemma set_nonzero_bytes:
  "(i, v) \<in> set (nonzero_bytes bytes a b) \<longleftrightarrow> a \<le> i \<and> i < b \<and> bytes ! i = v \<and> v \<noteq> 0"
  by (auto simp: nonzero_bytes_def)

lemma count_nonzero_bytes:
  "count (mset (nonzero_bytes bytes a b)) (i, v)
     = (if a \<le> i \<and> i < b \<and> bytes ! i = v \<and> v \<noteq> 0 then 1 else 0)"
  using distinct_nonzero_bytes [of bytes a b]
  by (simp add: distinct_count_atmost_1 set_nonzero_bytes)

subsection \<open>Draining after writes\<close>

text \<open>
  Claim C1. Let \<open>kSize\<close> be a multiple of 64 and let a sequence of \<^verbatim>\<open>Set(i, v)\<close> calls with
  indices below \<open>kSize\<close> run on a cleared set. Then the calls return, and the drain
  \<^verbatim>\<open>ForEachNonZeroByte(action, 0, kSize)\<close> calls the action exactly once with \<open>(i, v)\<close>
  for each index \<open>i\<close> whose last written value \<open>v\<close> is not zero, and with no other
  arguments. A second drain right after it calls the action not at all.
\<close>

theorem drain_after_Set_calls:
  assumes "ConcurrentByteSet_static_assert kSize"
    and "\<forall>c \<in> set calls. fst c < kSize"
  shows "\<exists>bytes bytes' tr.
       Set_calls kSize calls (clear kSize bytes0) = Some bytes
     \<and> ForEachNonZeroByte kSize record_call 0 kSize bytes [] = Some (bytes', tr)
     \<and> (\<forall>i v. count (mset tr) (i, v)
            = (if i < kSize \<and> last_written calls i = v \<and> v \<noteq> 0 then 1 else 0))
     \<and> ForEachNonZeroByte kSize record_call 0 kSize bytes' [] = Some (bytes', [])"
proof -
  from Set_calls_value [OF assms(2)]
  obtain bytes where b: "Set_calls kSize calls (clear kSize bytes0) = Some bytes"
    and l: "length bytes = kSize"
    and v: "\<forall>i < kSize. bytes ! i = last_written calls i"
    by blast
  have m: "kSize mod kSizeMultiple = 0"
    using assms(1) by (simp add: ConcurrentByteSet_static_assert_def)
  let ?bytes' = "replicate kSize (0 :: uint8_t)"
  let ?tr = "nonzero_bytes bytes 0 kSize"
  have d1: "ForEachNonZeroByte kSize record_call 0 kSize bytes [] = Some (?bytes', ?tr)"
    using l m zero_range_all [of bytes]
    by (simp add: ForEachNonZeroByte_record_call)
  have d2: "ForEachNonZeroByte kSize record_call 0 kSize ?bytes' [] = Some (?bytes', [])"
    using m zero_range_all [of ?bytes']
    by (simp add: ForEachNonZeroByte_record_call nonzero_bytes_replicate)
  have c: "\<forall>i v. count (mset ?tr) (i, v)
      = (if i < kSize \<and> last_written calls i = v \<and> v \<noteq> 0 then 1 else 0)"
    using v by (auto simp: count_nonzero_bytes)
  from b d1 d2 c show ?thesis
    by blast
qed

theorem drain_after_Set_calls_witness:
  "ConcurrentByteSet_static_assert 128
   \<and> list_all (\<lambda>c. fst c < (128 :: nat))
        [(0, 3), (0, 7), (1, 0), (63, 5), (64, 9), (127, 1 :: uint8_t)]
   \<and> (\<exists>bytes bytes' tr.
         Set_calls 128 [(0, 3), (0, 7), (1, 0), (63, 5), (64, 9), (127, 1)] (clear 128 [])
           = Some bytes
       \<and> ForEachNonZeroByte 128 record_call 0 128 bytes [] = Some (bytes', tr)
       \<and> count (mset tr) (0, 7) = 1
       \<and> count (mset tr) (0, 3) = 0
       \<and> count (mset tr) (1, 0) = 0
       \<and> count (mset tr) (2, 1) = 0
       \<and> count (mset tr) (127, 1) = 1
       \<and> ForEachNonZeroByte 128 record_call 0 128 bytes' [] = Some (bytes', []))"
proof -
  let ?cs = "[(0, 3), (0, 7), (1, 0), (63, 5), (64, 9), (127, 1 :: uint8_t)] :: (nat \<times> uint8_t) list"
  have a: "ConcurrentByteSet_static_assert 128"
    by (simp add: ConcurrentByteSet_static_assert_def kSizeMultiple_def)
  have i: "\<forall>c \<in> set ?cs. fst c < (128 :: nat)"
    by simp
  from drain_after_Set_calls [OF a i, of "[]"]
  obtain bytes bytes' tr where
    "Set_calls 128 ?cs (clear 128 []) = Some bytes"
    and "ForEachNonZeroByte 128 record_call 0 128 bytes [] = Some (bytes', tr)"
    and c: "\<forall>i v. count (mset tr) (i, v)
            = (if i < 128 \<and> last_written ?cs i = v \<and> v \<noteq> 0 then 1 else 0)"
    and "ForEachNonZeroByte 128 record_call 0 128 bytes' [] = Some (bytes', [])"
    by blast
  moreover have "count (mset tr) (0, 7) = 1" "count (mset tr) (0, 3) = 0"
    "count (mset tr) (1, 0) = 0" "count (mset tr) (2, 1) = 0" "count (mset tr) (127, 1) = 1"
    by (simp_all add: c last_written_def)
  moreover have "list_all (\<lambda>c. fst c < (128 :: nat)) ?cs"
    by simp
  ultimately show ?thesis
    using a by blast
qed

subsection \<open>Traps of the drain\<close>

text \<open>
  Claim C4, without its condition on the range of \<open>from\<close>. For every \<open>from\<close> and \<open>to\<close> such
  that \<open>from\<close> is not a multiple of 64, or \<open>to\<close> is not a multiple of 64, or \<open>to\<close> lies
  outside \<open>[0, kSize]\<close>, the call \<^verbatim>\<open>ForEachNonZeroByte(action, from, to)\<close> traps. These are
  the three checks of the source; it has none of \<open>from\<close> against \<open>kSize\<close>.
\<close>

theorem ForEachNonZeroByte_traps:
  assumes "from_idx mod 64 \<noteq> 0 \<or> to_idx mod 64 \<noteq> 0 \<or> to_idx > kSize"
  shows "ForEachNonZeroByte kSize action from_idx to_idx bytes s = None"
  using assms by (auto simp: ForEachNonZeroByte_def kSizeMultiple_def)

text \<open>
  Claim C4 as stated, with a trap whenever \<open>from\<close> lies outside \<open>[0, kSize]\<close>, fails:
  \<open>from = 128\<close> is a multiple of 64 outside \<open>[0, 64]\<close>, and on a set of \<open>kSize = 64\<close> bytes
  the call with \<open>to = 64\<close> passes the three checks and returns instead of trapping. (Here
  \<^verbatim>\<open>&bytes_[128]\<close> is above \<^verbatim>\<open>&bytes_[64]\<close>, so the loop condition is false at once.)
\<close>

theorem ForEachNonZeroByte_from_beyond_size:
  "\<not> (128 :: nat) \<le> 64 \<and> (128 :: nat) mod 64 = 0 \<and> (64 :: nat) mod 64 = 0
   \<and> (64 :: nat) \<le> 64
   \<and> ForEachNonZeroByte 64 record_call 128 64 ((clear 64 [])[3 := 7]) []
       = Some ((clear 64 [])[3 := 7], [])
   \<and> ForEachNonZeroByte 64 record_call 128 64 ((clear 64 [])[3 := 7]) [] \<noteq> None"
  by (simp add: ForEachNonZeroByte_def kSizeMultiple_def word_loop.simps)

theorem ForEachNonZeroByte_traps_witness:
  "(8 :: nat) mod 64 \<noteq> 0
   \<and> ForEachNonZeroByte 64 record_call 8 64 (clear 64 []) [] = None
   \<and> (100 :: nat) mod 64 \<noteq> 0
   \<and> ForEachNonZeroByte 128 record_call 0 100 (clear 128 []) [] = None
   \<and> (128 :: nat) > 64
   \<and> ForEachNonZeroByte 64 record_call 0 128 (clear 64 []) [] = None"
proof -
  have a: "(8 :: nat) mod 64 \<noteq> 0 \<or> (64 :: nat) mod 64 \<noteq> 0 \<or> (64 :: nat) > 64"
    by simp
  have b: "(0 :: nat) mod 64 \<noteq> 0 \<or> (100 :: nat) mod 64 \<noteq> 0 \<or> (100 :: nat) > 128"
    by simp
  have c: "(0 :: nat) mod 64 \<noteq> 0 \<or> (128 :: nat) mod 64 \<noteq> 0 \<or> (128 :: nat) > 64"
    by simp
  have "ForEachNonZeroByte 64 record_call 8 64 (clear 64 []) [] = None"
    using a by (rule ForEachNonZeroByte_traps)
  moreover have "ForEachNonZeroByte 128 record_call 0 100 (clear 128 []) [] = None"
    using b by (rule ForEachNonZeroByte_traps)
  moreover have "ForEachNonZeroByte 64 record_call 0 128 (clear 64 []) [] = None"
    using c by (rule ForEachNonZeroByte_traps)
  ultimately show ?thesis
    by simp
qed

subsection \<open>The two-layer set\<close>

lemma TwoLayer_static_assertD:
  assumes "TwoLayer_static_assert kSize"
  shows "kLayerRatio kSize (kSize div 64) = 64"
    and "(kSize div 64) * 64 = kSize"
    and "(kSize div 64) mod kSizeMultiple = 0"
    and "kSize mod Layered_kSizeMultiple = 0"
    and "kSize mod kSizeMultiple = 0"
proof -
  from assms have a: "kSize mod 64 = 0" and b: "(kSize div 64) mod 64 = 0"
    and c: "kSize div 64 \<noteq> 0"
    by (simp_all add: TwoLayer_static_assert_def Layered_static_assert_def
        ConcurrentByteSet_static_assert_def kSizeMultiple_def)
  from a show m: "(kSize div 64) * 64 = kSize"
    by (simp add: mod_eq_0_iff_dvd)
  then have "kSize div (kSize div 64) = 64"
    using c by (metis nonzero_mult_div_cancel_left)
  then show "kLayerRatio kSize (kSize div 64) = 64"
    by (simp add: kLayerRatio_def)
  from b show "(kSize div 64) mod kSizeMultiple = 0"
    by (simp add: kSizeMultiple_def)
  from a show "kSize mod kSizeMultiple = 0"
    by (simp add: kSizeMultiple_def)
  from b have "64 dvd kSize div 64"
    by (simp add: mod_eq_0_iff_dvd)
  then have "64 * 64 dvd (kSize div 64) * 64"
    by (rule mult_dvd_mono) simp
  then show "kSize mod Layered_kSizeMultiple = 0"
    by (simp add: m Layered_kSizeMultiple_def kSizeMultiple_def mod_eq_0_iff_dvd)
qed

lemma layers_inv_clear: "layers_inv kSize (TwoLayer_clear kSize L0)"
  by (simp add: layers_inv_def TwoLayer_clear_def Layered_clear_def clear_def list_all_iff)

lemma div_64_less:
  fixes kSize idx :: nat
  assumes "(kSize div 64) * 64 = kSize" and "idx < kSize"
  shows "idx div 64 < kSize div 64"
proof -
  from assms have "idx < (kSize div 64) * 64"
    by simp
  then show ?thesis
    by (simp add: div_less_iff_less_mult)
qed

lemma TwoLayer_apply_call_sim:
  assumes sa: "TwoLayer_static_assert kSize"
    and idx: "call_idx c < kSize"
    and inv: "layers_inv kSize L"
  shows "\<exists>L'. TwoLayer_apply_call kSize c L = Some L'
           \<and> apply_call kSize c (lower_layer L) = Some (lower_layer L')
           \<and> layers_inv kSize L'"
proof -
  note R = TwoLayer_static_assertD(1) [OF sa]
  have u: "call_idx c div 64 < kSize div 64"
    using TwoLayer_static_assertD(2) [OF sa] idx by (rule div_64_less)
  from inv have lu: "length (upper_layer L) = kSize div 64"
    and ll: "length (lower_layer L) = kSize"
    and fl: "\<forall>i < kSize. lower_layer L ! i = 0 \<or> upper_layer L ! (i div 64) \<noteq> 0"
    by (simp_all add: layers_inv_def list_all_iff)
  let ?upper = "(upper_layer L)[call_idx c div 64 := 1]"
  have up: "\<forall>i < kSize. upper_layer L ! (i div 64) \<noteq> 0 \<longrightarrow> ?upper ! (i div 64) \<noteq> 0"
  proof (intro allI impI)
    fix i
    assume "i < kSize" and nz: "upper_layer L ! (i div 64) \<noteq> 0"
    with TwoLayer_static_assertD(2) [OF sa] have "i div 64 < kSize div 64"
      by (intro div_64_less)
    with lu nz u show "?upper ! (i div 64) \<noteq> 0"
      by (simp add: nth_list_update)
  qed
  have here: "?upper ! (call_idx c div 64) \<noteq> 0"
    using u lu by simp
  have inv': "layers_inv kSize \<lparr>upper_layer = ?upper, lower_layer = lw\<rparr>"
    if len: "length lw = kSize"
      and other: "\<forall>j < kSize. j \<noteq> call_idx c \<longrightarrow> lw ! j = lower_layer L ! j" for lw
  proof -
    have "lw ! j = 0 \<or> ?upper ! (j div 64) \<noteq> 0" if j: "j < kSize" for j
    proof (cases "j = call_idx c")
      case True
      with here show ?thesis by simp
    next
      case False
      with other j have "lw ! j = lower_layer L ! j" by simp
      with fl up j show ?thesis by auto
    qed
    with len lu show ?thesis
      by (simp add: layers_inv_def list_all_iff)
  qed
  show ?thesis
  proof (cases c)
    case (Call_Set i v)
    let ?L' = "\<lparr>upper_layer = ?upper, lower_layer = (lower_layer L)[i := v]\<rparr>"
    have "TwoLayer_apply_call kSize c L = Some ?L'"
      using Call_Set idx u by (simp add: TwoLayer_Set_def Layered_Set_def Set_def R)
    moreover have "apply_call kSize c (lower_layer L) = Some (lower_layer ?L')"
      using Call_Set idx by (simp add: Set_def)
    moreover have "layers_inv kSize ?L'"
      using ll Call_Set by (intro inv') simp_all
    ultimately show ?thesis
      by blast
  next
    case (Call_SaturatedIncrement i)
    let ?lower = "if lower_layer L ! i \<noteq> 255
      then (lower_layer L)[i := lower_layer L ! i + 1] else lower_layer L"
    let ?L' = "\<lparr>upper_layer = ?upper, lower_layer = ?lower\<rparr>"
    have s: "SaturatedIncrement kSize i (lower_layer L) = Some ?lower"
      using Call_SaturatedIncrement idx by (simp add: SaturatedIncrement_def)
    have "TwoLayer_apply_call kSize c L = Some ?L'"
      using Call_SaturatedIncrement idx u s
      by (simp add: TwoLayer_SaturatedIncrement_def Layered_SaturatedIncrement_def Set_def R)
    moreover have "apply_call kSize c (lower_layer L) = Some (lower_layer ?L')"
      using Call_SaturatedIncrement s by simp
    moreover have "layers_inv kSize ?L'"
      using ll Call_SaturatedIncrement by (intro inv') simp_all
    ultimately show ?thesis
      by blast
  qed
qed

lemma TwoLayer_apply_calls_sim:
  assumes "TwoLayer_static_assert kSize"
    and "\<forall>c \<in> set calls. call_idx c < kSize"
    and "layers_inv kSize L"
  shows "\<exists>L'. TwoLayer_apply_calls kSize calls L = Some L'
           \<and> apply_calls kSize calls (lower_layer L) = Some (lower_layer L')
           \<and> layers_inv kSize L'"
  using assms(2,3)
proof (induction calls arbitrary: L)
  case Nil
  then show ?case by simp
next
  case (Cons c calls)
  from Cons.prems have "call_idx c < kSize"
    by simp
  from TwoLayer_apply_call_sim [OF assms(1) this Cons.prems(2)]
  obtain L1 where 1: "TwoLayer_apply_call kSize c L = Some L1"
    and 2: "apply_call kSize c (lower_layer L) = Some (lower_layer L1)"
    and 3: "layers_inv kSize L1"
    by blast
  from Cons.prems have "\<forall>c \<in> set calls. call_idx c < kSize"
    by simp
  from Cons.IH [OF this 3] 1 2 show ?case
    by simp
qed

lemma drain_lower_run:
  assumes sa: "TwoLayer_static_assert kSize"
    and len: "length lower = kSize"
    and j: "j < kSize div 64"
  shows "drain_lower kSize (kSize div 64) action j u (lower, s) =
     (case run_actions action (nonzero_bytes lower (j * 64) (j * 64 + 64)) s of
        None \<Rightarrow> None
      | Some s' \<Rightarrow> Some (zero_range lower (j * 64) (j * 64 + 64), s'))"
proof -
  note R = TwoLayer_static_assertD(1) [OF sa]
  from j have "Suc j \<le> kSize div 64"
    by simp
  then have "Suc j * 64 \<le> (kSize div 64) * 64"
    by (rule mult_le_mono1)
  then have le: "j * 64 + 64 \<le> kSize"
    using TwoLayer_static_assertD(2) [OF sa] by simp
  have "ForEachNonZeroByte kSize action (j * 64) (j * 64 + 64) lower s =
     (case run_actions action (nonzero_bytes lower (j * 64) (j * 64 + 64)) s of
        None \<Rightarrow> None
      | Some s' \<Rightarrow> Some (zero_range lower (j * 64) (j * 64 + 64), s'))"
    using len le by (intro ForEachNonZeroByte_run) (simp_all add: kSizeMultiple_def)
  then show ?thesis
    by (simp add: drain_lower_def R Let_def)
qed

lemma run_drain_lower:
  assumes sa: "TwoLayer_static_assert kSize"
    and "length lower = kSize"
    and "\<forall>ju \<in> set jus. fst ju < kSize div 64"
    and "distinct (map fst jus)"
  shows "run_actions (drain_lower kSize (kSize div 64) action) jus (lower, s) =
     (case run_actions action
             (concat (map (\<lambda>ju. nonzero_bytes lower (fst ju * 64) (fst ju * 64 + 64)) jus)) s of
        None \<Rightarrow> None
      | Some s' \<Rightarrow>
          Some (fold (\<lambda>ju l. zero_range l (fst ju * 64) (fst ju * 64 + 64)) jus lower, s'))"
  using assms(2-)
proof (induction jus arbitrary: lower s)
  case Nil
  show ?case by simp
next
  case (Cons ju jus)
  let ?j = "fst ju"
  let ?lower1 = "zero_range lower (?j * 64) (?j * 64 + 64)"
  from Cons.prems have j: "?j < kSize div 64" and len: "length lower = kSize"
    by simp_all
  have first: "drain_lower kSize (kSize div 64) action ?j (snd ju) (lower, s) =
     (case run_actions action (nonzero_bytes lower (?j * 64) (?j * 64 + 64)) s of
        None \<Rightarrow> None
      | Some s' \<Rightarrow> Some (?lower1, s'))"
    using sa len j by (rule drain_lower_run)
  have same: "nonzero_bytes ?lower1 (fst ku * 64) (fst ku * 64 + 64)
      = nonzero_bytes lower (fst ku * 64) (fst ku * 64 + 64)" if "ku \<in> set jus" for ku
  proof (rule nonzero_bytes_cong, intro allI impI)
    fix i
    assume i: "fst ku * 64 \<le> i \<and> i < fst ku * 64 + 64"
    from that have "fst ku \<in> fst ` set jus"
      by (rule imageI)
    moreover from Cons.prems have "?j \<notin> fst ` set jus"
      by simp
    ultimately have "fst ku \<noteq> ?j"
      by metis
    from that Cons.prems have "fst ku < kSize div 64"
      by simp
    from \<open>fst ku < kSize div 64\<close> have "Suc (fst ku) * 64 \<le> (kSize div 64) * 64"
      by (intro mult_le_mono1) simp
    with i have "i < kSize"
      using TwoLayer_static_assertD(2) [OF sa] by simp
    moreover have "\<not> (?j * 64 \<le> i \<and> i < ?j * 64 + 64)"
    proof
      assume "?j * 64 \<le> i \<and> i < ?j * 64 + 64"
      with i have "i div 64 = ?j" and "i div 64 = fst ku"
        by (simp_all add: div_nat_eqI mult.commute)
      with \<open>fst ku \<noteq> ?j\<close> show False by simp
    qed
    ultimately show "?lower1 ! i = lower ! i"
      using len by (auto simp: zero_range_nth)
  qed
  then have concat_same:
    "concat (map (\<lambda>ku. nonzero_bytes ?lower1 (fst ku * 64) (fst ku * 64 + 64)) jus)
      = concat (map (\<lambda>ku. nonzero_bytes lower (fst ku * 64) (fst ku * 64 + 64)) jus)"
    by (intro arg_cong [where f = concat] map_cong) simp_all
  have IH: "run_actions (drain_lower kSize (kSize div 64) action) jus (?lower1, s') =
     (case run_actions action
             (concat (map (\<lambda>ku. nonzero_bytes lower (fst ku * 64) (fst ku * 64 + 64)) jus)) s' of
        None \<Rightarrow> None
      | Some s'' \<Rightarrow>
          Some (fold (\<lambda>ku l. zero_range l (fst ku * 64) (fst ku * 64 + 64)) jus ?lower1, s''))"
    for s'
    using Cons.IH [of ?lower1 s'] Cons.prems len by (simp add: concat_same)
  show ?case
    by (simp add: first IH run_actions_append split: option.splits)
qed

lemma nonzero_bytes_chunks:
  "nonzero_bytes bytes 0 (m * 64)
     = concat (map (\<lambda>j. nonzero_bytes bytes (j * 64) (j * 64 + 64)) [0..<m])"
proof (induction m)
  case 0
  show ?case by (simp add: nonzero_bytes_empty)
next
  case (Suc m)
  have "nonzero_bytes bytes 0 (Suc m * 64)
      = nonzero_bytes bytes 0 (m * 64) @ nonzero_bytes bytes (m * 64) (Suc m * 64)"
    by (rule nonzero_bytes_append) simp_all
  with Suc show ?case
    by (simp add: add.commute)
qed

lemma concat_map_filter_empty:
  assumes "\<forall>x \<in> set xs. \<not> P x \<longrightarrow> f x = []"
  shows "concat (map f (filter P xs)) = concat (map f xs)"
  using assms by (induction xs) auto

lemma layers_inv_chunks:
  assumes sa: "TwoLayer_static_assert kSize" and inv: "layers_inv kSize L"
  shows "concat (map (\<lambda>ju. nonzero_bytes (lower_layer L) (fst ju * 64) (fst ju * 64 + 64))
            (nonzero_bytes (upper_layer L) 0 (kSize div 64)))
     = nonzero_bytes (lower_layer L) 0 kSize"
proof -
  let ?chunk = "\<lambda>j. nonzero_bytes (lower_layer L) (j * 64) (j * 64 + 64)"
  from inv have fl: "\<forall>i < kSize. lower_layer L ! i = 0 \<or> upper_layer L ! (i div 64) \<noteq> 0"
    by (simp add: layers_inv_def list_all_iff)
  have empty: "?chunk j = []" if "j < kSize div 64" and z: "upper_layer L ! j = 0" for j
  proof (rule nonzero_bytes_all_zero, intro allI impI)
    fix i
    assume i: "j * 64 \<le> i \<and> i < j * 64 + 64"
    then have d: "i div 64 = j"
      by (simp add: div_nat_eqI mult.commute)
    from that have "Suc j * 64 \<le> (kSize div 64) * 64"
      by (intro mult_le_mono1) simp
    with i have "i < kSize"
      using TwoLayer_static_assertD(2) [OF sa] by simp
    with fl d z show "lower_layer L ! i = 0"
      by auto
  qed
  have "concat (map (\<lambda>ju. ?chunk (fst ju)) (nonzero_bytes (upper_layer L) 0 (kSize div 64)))
      = concat (map ?chunk (filter (\<lambda>j. upper_layer L ! j \<noteq> 0) [0..<kSize div 64]))"
    by (simp add: nonzero_bytes_def comp_def)
  also have "\<dots> = concat (map ?chunk [0..<kSize div 64])"
    using empty by (intro concat_map_filter_empty) simp
  also have "\<dots> = nonzero_bytes (lower_layer L) 0 ((kSize div 64) * 64)"
    by (simp only: nonzero_bytes_chunks)
  finally show ?thesis
    by (simp only: TwoLayer_static_assertD(2) [OF sa])
qed

lemma TwoLayer_ForEachNonZeroByte_run:
  assumes sa: "TwoLayer_static_assert kSize" and inv: "layers_inv kSize L"
  shows "map_option snd (ForEachNonZeroByte kSize action 0 kSize (lower_layer L) s)
           = run_actions action (nonzero_bytes (lower_layer L) 0 kSize) s
       \<and> map_option snd (TwoLayer_ForEachNonZeroByte kSize action 0 kSize L s)
           = run_actions action (nonzero_bytes (lower_layer L) 0 kSize) s"
proof -
  note D = TwoLayer_static_assertD [OF sa]
  from inv have lu: "length (upper_layer L) = kSize div 64"
    and ll: "length (lower_layer L) = kSize"
    by (simp_all add: layers_inv_def)
  let ?jus = "nonzero_bytes (upper_layer L) 0 (kSize div 64)"
  have single: "ForEachNonZeroByte kSize action 0 kSize (lower_layer L) s =
     (case run_actions action (nonzero_bytes (lower_layer L) 0 kSize) s of
        None \<Rightarrow> None
      | Some s' \<Rightarrow> Some (zero_range (lower_layer L) 0 kSize, s'))"
    using ll D(5) by (intro ForEachNonZeroByte_run) simp_all
  have upper: "ForEachNonZeroByte (kSize div 64) (drain_lower kSize (kSize div 64) action)
        0 (kSize div 64) (upper_layer L) (lower_layer L, s) =
     (case run_actions (drain_lower kSize (kSize div 64) action) ?jus (lower_layer L, s) of
        None \<Rightarrow> None
      | Some st \<Rightarrow> Some (zero_range (upper_layer L) 0 (kSize div 64), st))"
    using lu D(3) by (intro ForEachNonZeroByte_run) simp_all
  have "\<forall>ju \<in> set ?jus. fst ju < kSize div 64"
    by (auto simp: nonzero_bytes_def)
  moreover have "distinct (map fst ?jus)"
    by (simp add: nonzero_bytes_def comp_def)
  ultimately have lower:
    "run_actions (drain_lower kSize (kSize div 64) action) ?jus (lower_layer L, s) =
     (case run_actions action (nonzero_bytes (lower_layer L) 0 kSize) s of
        None \<Rightarrow> None
      | Some s' \<Rightarrow>
          Some (fold (\<lambda>ju l. zero_range l (fst ju * 64) (fst ju * 64 + 64)) ?jus (lower_layer L), s'))"
    using run_drain_lower [OF sa ll, of ?jus action s]
    by (simp only: layers_inv_chunks [OF sa inv])
  have two: "map_option snd (TwoLayer_ForEachNonZeroByte kSize action 0 kSize L s)
      = run_actions action (nonzero_bytes (lower_layer L) 0 kSize) s"
    using D(4)
    by (simp add: TwoLayer_ForEachNonZeroByte_def Layered_ForEachNonZeroByte_def D(1) D(2)
        Let_def upper lower split: option.splits)
  have one: "map_option snd (ForEachNonZeroByte kSize action 0 kSize (lower_layer L) s)
      = run_actions action (nonzero_bytes (lower_layer L) 0 kSize) s"
    by (simp add: single split: option.splits)
  from one two show ?thesis
    by simp
qed

text \<open>
  Claim C2. Let the same sequence of \<^verbatim>\<open>Set\<close> and \<^verbatim>\<open>SaturatedIncrement\<close> calls, with
  indices below \<open>kSize\<close>, run on a cleared \<^verbatim>\<open>TwoLayerConcurrentByteSet<kSize>\<close> and on a
  cleared \<^verbatim>\<open>ConcurrentByteSet<kSize>\<close>. Then all calls return, both drains over
  \<open>[0, kSize)\<close> return, and they call the action on the same multiset of
  \<open>(index, value)\<close> pairs.
\<close>

theorem TwoLayer_drain_same_as_single:
  assumes "TwoLayer_static_assert kSize"
    and "\<forall>c \<in> set calls. call_idx c < kSize"
  shows "\<exists>bytes L bytes' L' tr tr'.
       apply_calls kSize calls (clear kSize bytes0) = Some bytes
     \<and> TwoLayer_apply_calls kSize calls (TwoLayer_clear kSize L0) = Some L
     \<and> ForEachNonZeroByte kSize record_call 0 kSize bytes [] = Some (bytes', tr)
     \<and> TwoLayer_ForEachNonZeroByte kSize record_call 0 kSize L [] = Some (L', tr')
     \<and> mset tr' = mset tr"
proof -
  have c: "lower_layer (TwoLayer_clear kSize L0) = clear kSize bytes0"
    by (simp add: TwoLayer_clear_def Layered_clear_def clear_def)
  from TwoLayer_apply_calls_sim [OF assms layers_inv_clear, of L0]
  obtain L where two: "TwoLayer_apply_calls kSize calls (TwoLayer_clear kSize L0) = Some L"
    and one: "apply_calls kSize calls (clear kSize bytes0) = Some (lower_layer L)"
    and inv: "layers_inv kSize L"
    unfolding c by blast
  let ?tr = "nonzero_bytes (lower_layer L) 0 kSize"
  from TwoLayer_ForEachNonZeroByte_run [OF assms(1) inv, of record_call "[]"]
  have "map_option snd (ForEachNonZeroByte kSize record_call 0 kSize (lower_layer L) [])
      = Some ?tr"
    and "map_option snd (TwoLayer_ForEachNonZeroByte kSize record_call 0 kSize L [])
      = Some ?tr"
    by (simp_all add: run_actions_record_call)
  then obtain bytes' L' where
    "ForEachNonZeroByte kSize record_call 0 kSize (lower_layer L) [] = Some (bytes', ?tr)"
    and "TwoLayer_ForEachNonZeroByte kSize record_call 0 kSize L [] = Some (L', ?tr)"
    by auto
  with one two show ?thesis
    by blast
qed

theorem TwoLayer_drain_same_as_single_witness:
  "TwoLayer_static_assert 4096
   \<and> list_all (\<lambda>c. call_idx c < 4096)
        [Call_Set 2050 42, Call_SaturatedIncrement 10, Call_Set 5 0, Call_SaturatedIncrement 10]
   \<and> (\<exists>bytes L bytes' L' tr tr'.
         apply_calls 4096
           [Call_Set 2050 42, Call_SaturatedIncrement 10, Call_Set 5 0, Call_SaturatedIncrement 10]
           (clear 4096 []) = Some bytes
       \<and> TwoLayer_apply_calls 4096
           [Call_Set 2050 42, Call_SaturatedIncrement 10, Call_Set 5 0, Call_SaturatedIncrement 10]
           (TwoLayer_clear 4096 \<lparr>upper_layer = [], lower_layer = []\<rparr>) = Some L
       \<and> ForEachNonZeroByte 4096 record_call 0 4096 bytes [] = Some (bytes', tr)
       \<and> TwoLayer_ForEachNonZeroByte 4096 record_call 0 4096 L [] = Some (L', tr')
       \<and> mset tr' = mset tr)"
proof -
  let ?cs = "[Call_Set 2050 42, Call_SaturatedIncrement 10, Call_Set 5 0,
    Call_SaturatedIncrement 10]"
  have a: "TwoLayer_static_assert 4096"
    by (simp add: TwoLayer_static_assert_def Layered_static_assert_def
        ConcurrentByteSet_static_assert_def kSizeMultiple_def)
  have i: "\<forall>c \<in> set ?cs. call_idx c < 4096"
    by simp
  have l: "list_all (\<lambda>c. call_idx c < 4096) ?cs"
    by simp
  from TwoLayer_drain_same_as_single [OF a i, of "[]" "\<lparr>upper_layer = [], lower_layer = []\<rparr>"] a l
  show ?thesis
    by blast
qed

text \<open>
  Claim C9. The two-layer drain requires multiples of \<open>4096 = 64 * 64\<close>, the product of
  the \<^verbatim>\<open>kSizeMultiple\<close> of its two layers: it traps whenever \<open>from\<close> or \<open>to\<close> is not
  one, also when both are multiples of 64 inside \<open>[0, kSize]\<close>, where the single-layer
  drain returns.
\<close>

theorem TwoLayer_ForEachNonZeroByte_alignment:
  "Layered_kSizeMultiple = 4096
   \<and> Layered_kSizeMultiple = 64 * kSizeMultiple
   \<and> (from_idx mod 4096 \<noteq> 0 \<or> to_idx mod 4096 \<noteq> 0 \<longrightarrow>
        TwoLayer_ForEachNonZeroByte kSize action from_idx to_idx L s = None)"
  by (auto simp: TwoLayer_ForEachNonZeroByte_def Layered_ForEachNonZeroByte_def
      Layered_kSizeMultiple_def kSizeMultiple_def)

theorem TwoLayer_ForEachNonZeroByte_alignment_witness:
  "(64 :: nat) mod 4096 \<noteq> 0 \<and> (64 :: nat) mod 64 = 0 \<and> (4096 :: nat) mod 64 = 0
   \<and> (64 :: nat) \<le> 4096
   \<and> TwoLayer_ForEachNonZeroByte 4096 record_call 64 4096
        (TwoLayer_clear 4096 \<lparr>upper_layer = [], lower_layer = []\<rparr>) [] = None
   \<and> ForEachNonZeroByte 4096 record_call 64 4096 (clear 4096 []) [] \<noteq> None"
proof -
  have "length (clear 4096 []) = 4096" and "\<forall>i v s. record_call i v s \<noteq> None"
    by (simp_all add: clear_def record_call_def)
  then have "ForEachNonZeroByte 4096 record_call 64 4096 (clear 4096 []) [] \<noteq> None"
    by (simp add: ForEachNonZeroByte_trap_iff)
  moreover have "TwoLayer_ForEachNonZeroByte 4096 record_call 64 4096
      (TwoLayer_clear 4096 \<lparr>upper_layer = [], lower_layer = []\<rparr>) [] = None"
    using TwoLayer_ForEachNonZeroByte_alignment [of 64 4096 4096 record_call
        "TwoLayer_clear 4096 \<lparr>upper_layer = [], lower_layer = []\<rparr>" "[]",
        THEN conjunct2, THEN conjunct2]
    by simp
  ultimately show ?thesis
    by simp
qed

section \<open>Theorems about \<^verbatim>\<open>table_of_recent_compares.h\<close>\<close>

subsection \<open>Matching entries\<close>

lemma sint_numeric_limits_min:
  "sint (numeric_limits_min True :: 'a::len word) = - (2 ^ (LENGTH('a) - 1))"
proof -
  have "(- (2 ^ (LENGTH('a) - 1)) :: 'a word) = word_of_int (- (2 ^ (LENGTH('a) - 1)))"
    by simp
  then have "sint (- (2 ^ (LENGTH('a) - 1)) :: 'a word)
      = signed_take_bit (LENGTH('a) - 1) (- (2 ^ (LENGTH('a) - 1)))"
    by (simp only: sint_sbintrunc')
  also have "\<dots> = - (2 ^ (LENGTH('a) - 1))"
    by (rule signed_take_bit_int_eq_self) simp_all
  finally show ?thesis
    by (simp add: numeric_limits_min_def)
qed

lemma sint_numeric_limits_max:
  "sint (numeric_limits_max True :: 'a::len word) = 2 ^ (LENGTH('a) - 1) - 1"
proof -
  have "(2 ^ (LENGTH('a) - 1) - 1 :: 'a word) = word_of_int (2 ^ (LENGTH('a) - 1) - 1)"
    by simp
  then have "sint (2 ^ (LENGTH('a) - 1) - 1 :: 'a word)
      = signed_take_bit (LENGTH('a) - 1) (2 ^ (LENGTH('a) - 1) - 1)"
    by (simp only: sint_sbintrunc')
  also have "\<dots> = 2 ^ (LENGTH('a) - 1) - 1"
    by (rule signed_take_bit_int_eq_self) simp_all
  finally show ?thesis
    by (simp add: numeric_limits_max_def)
qed

lemma numeric_limits_bounds:
  "T_less_eq is_signed (numeric_limits_min is_signed) (b :: 'a::len word)"
  "T_less_eq is_signed b (numeric_limits_max is_signed)"
proof -
  show "T_less_eq is_signed (numeric_limits_min is_signed) b"
  proof (cases is_signed)
    case True
    then show ?thesis
      using sint_ge [of b] by (simp add: T_less_eq_def word_sle_eq sint_numeric_limits_min)
  next
    case False
    then show ?thesis
      by (simp add: T_less_eq_def numeric_limits_min_def)
  qed
  show "T_less_eq is_signed b (numeric_limits_max is_signed)"
  proof (cases is_signed)
    case True
    then show ?thesis
      using sint_lt [of b] by (simp add: T_less_eq_def word_sle_eq sint_numeric_limits_max)
  next
    case False
    then show ?thesis
      by (simp add: T_less_eq_def numeric_limits_max_def)
  qed
qed

lemma not_T_less: "\<not> T_less is_signed a b \<longleftrightarrow> T_less_eq is_signed b a"
  by (auto simp: T_less_def T_less_eq_def word_sless_alt word_sle_eq)

lemma GetMatchingIntegerDictionaryEntry_Some:
  "GetMatchingIntegerDictionaryEntry t val idx = Some b \<longleftrightarrow>
     (lhs (table t ! idx) = val \<and> rhs (table t ! idx) = b)
     \<or> (lhs (table t ! idx) = b \<and> rhs (table t ! idx) = val)"
  by (auto simp: GetMatchingIntegerDictionaryEntry_def)

lemma GetMatchingIntegerDictionaryEntry_in_Some:
  "GetMatchingIntegerDictionaryEntry_in is_signed t val idx mn mx = Some b \<longleftrightarrow>
     GetMatchingIntegerDictionaryEntry t val idx = Some b
     \<and> T_less_eq is_signed mn b \<and> T_less_eq is_signed b mx"
  by (auto simp: GetMatchingIntegerDictionaryEntry_in_def Let_def not_T_less [symmetric]
      split: option.splits if_splits)

lemma set_flat_hash_set_insert: "set (flat_hash_set_insert x ds) = insert x (set ds)"
  by (auto simp: flat_hash_set_insert_def)

lemma distinct_flat_hash_set_insert: "distinct ds \<Longrightarrow> distinct (flat_hash_set_insert x ds)"
  by (simp add: flat_hash_set_insert_def)

lemma ex_from_first:
  assumes "i < n"
  shows "(\<exists>k. i \<le> k \<and> k < n \<and> get k = Some b) \<longleftrightarrow>
     get i = Some b \<or> (\<exists>k. Suc i \<le> k \<and> k < n \<and> get k = Some b)"
proof
  assume "\<exists>k. i \<le> k \<and> k < n \<and> get k = Some b"
  then obtain k where k: "i \<le> k" "k < n" "get k = Some b"
    by blast
  show "get i = Some b \<or> (\<exists>k. Suc i \<le> k \<and> k < n \<and> get k = Some b)"
  proof (cases "k = i")
    case True
    with k show ?thesis by simp
  next
    case False
    with k have "Suc i \<le> k" by simp
    with k show ?thesis by blast
  qed
next
  assume "get i = Some b \<or> (\<exists>k. Suc i \<le> k \<and> k < n \<and> get k = Some b)"
  then show "\<exists>k. i \<le> k \<and> k < n \<and> get k = Some b"
  proof
    assume "get i = Some b"
    with assms show ?thesis by blast
  next
    assume "\<exists>k. Suc i \<le> k \<and> k < n \<and> get k = Some b"
    then obtain k where "Suc i \<le> k" "k < n" "get k = Some b"
      by blast
    then have "i \<le> k \<and> k < n \<and> get k = Some b"
      by simp
    then show ?thesis ..
  qed
qed

lemma set_entries_loop:
  "set (entries_loop get n i ds) = set ds \<union> {b. \<exists>k. i \<le> k \<and> k < n \<and> get k = Some b}"
proof (induction get n i ds rule: entries_loop.induct)
  case (1 get n i ds)
  show ?case
  proof (cases "i < n")
    case False
    then show ?thesis
      by (subst entries_loop.simps) auto
  next
    case True
    note first = ex_from_first [OF True, of get]
    show ?thesis
    proof (cases "get i")
      case None
      have "set (entries_loop get n i ds) = set (entries_loop get n (i + 1) ds)"
        using True None by (subst entries_loop.simps) simp
      also have "\<dots> = set ds \<union> {b. \<exists>k. i + 1 \<le> k \<and> k < n \<and> get k = Some b}"
        using True None by (rule "1.IH")
      finally show ?thesis
        using None by (simp add: first)
    next
      case (Some e)
      have "set (entries_loop get n i ds)
          = set (entries_loop get n (i + 1) (flat_hash_set_insert e ds))"
        using True Some by (subst entries_loop.simps) simp
      also have "\<dots> = set (flat_hash_set_insert e ds)
          \<union> {b. \<exists>k. i + 1 \<le> k \<and> k < n \<and> get k = Some b}"
        using True Some by (rule "1.IH")
      finally show ?thesis
        using Some by (auto simp: first set_flat_hash_set_insert)
    qed
  qed
qed

lemma distinct_entries_loop:
  "distinct ds \<Longrightarrow> distinct (entries_loop get n i ds)"
proof (induction get n i ds rule: entries_loop.induct)
  case (1 get n i ds)
  show ?case
  proof (cases "i < n")
    case False
    with "1.prems" show ?thesis
      by (subst entries_loop.simps) simp
  next
    case True
    show ?thesis
    proof (cases "get i")
      case None
      have "distinct (entries_loop get n (i + 1) ds)"
        using True None "1.prems" by (rule "1.IH")
      with True None show ?thesis
        by (subst entries_loop.simps) simp
    next
      case (Some e)
      have "distinct (entries_loop get n (i + 1) (flat_hash_set_insert e ds))"
        using True Some "1.prems" by (intro "1.IH" distinct_flat_hash_set_insert)
      with True Some show ?thesis
        by (subst entries_loop.simps) simp
    qed
  qed
qed

lemma ex_slot_iff:
  "(\<exists>k. 0 \<le> k \<and> k < length xs \<and> P (xs ! k)) \<longleftrightarrow> (\<exists>e \<in> set xs. P e)"
proof
  assume "\<exists>k. 0 \<le> k \<and> k < length xs \<and> P (xs ! k)"
  then obtain k where "k < length xs" and "P (xs ! k)"
    by blast
  then have "xs ! k \<in> set xs" and "P (xs ! k)"
    by simp_all
  then show "\<exists>e \<in> set xs. P e" ..
next
  assume "\<exists>e \<in> set xs. P e"
  then obtain e where "e \<in> set xs" and "P e"
    by blast
  then obtain k where "k < length xs" and "xs ! k = e"
    by (auto simp: in_set_conv_nth)
  with \<open>P e\<close> have "0 \<le> k \<and> k < length xs \<and> P (xs ! k)"
    by simp
  then show "\<exists>k. 0 \<le> k \<and> k < length xs \<and> P (xs ! k)" ..
qed

lemma set_GetMatchingIntegerDictionaryEntries:
  fixes t :: "('a::len word) TableOfRecentCompares"
  assumes "length (table t) = kTableSize TYPE('a)"
  shows "set (GetMatchingIntegerDictionaryEntries is_signed t val mn mx) =
     {b. (\<exists>e \<in> set (table t). (lhs e = val \<and> rhs e = b) \<or> (lhs e = b \<and> rhs e = val))
         \<and> T_less_eq is_signed mn b \<and> T_less_eq is_signed b mx}"
proof (cases "mn = numeric_limits_min is_signed \<and> mx = numeric_limits_max is_signed")
  case True
  have "set (GetMatchingIntegerDictionaryEntries is_signed t val mn mx)
      = {b. \<exists>k. 0 \<le> k \<and> k < length (table t)
              \<and> ((lhs (table t ! k) = val \<and> rhs (table t ! k) = b)
                 \<or> (lhs (table t ! k) = b \<and> rhs (table t ! k) = val))}"
    by (simp only: GetMatchingIntegerDictionaryEntries_def Let_def if_P [OF True])
      (simp add: set_entries_loop GetMatchingIntegerDictionaryEntry_Some assms)
  also have "\<dots> = {b. \<exists>e \<in> set (table t).
      (lhs e = val \<and> rhs e = b) \<or> (lhs e = b \<and> rhs e = val)}"
    by (rule Collect_cong)
      (rule ex_slot_iff [where P = "\<lambda>e. (lhs e = val \<and> rhs e = _) \<or> (lhs e = _ \<and> rhs e = val)"])
  finally show ?thesis
    using True by (simp add: numeric_limits_bounds)
next
  case False
  have "set (GetMatchingIntegerDictionaryEntries is_signed t val mn mx)
      = {b. \<exists>k. 0 \<le> k \<and> k < length (table t)
              \<and> (((lhs (table t ! k) = val \<and> rhs (table t ! k) = b)
                 \<or> (lhs (table t ! k) = b \<and> rhs (table t ! k) = val))
                 \<and> T_less_eq is_signed mn b \<and> T_less_eq is_signed b mx)}"
    by (simp only: GetMatchingIntegerDictionaryEntries_def Let_def if_not_P [OF False])
      (simp add: set_entries_loop GetMatchingIntegerDictionaryEntry_in_Some
        GetMatchingIntegerDictionaryEntry_Some assms)
  also have "\<dots> = {b. \<exists>e \<in> set (table t).
      ((lhs e = val \<and> rhs e = b) \<or> (lhs e = b \<and> rhs e = val))
      \<and> T_less_eq is_signed mn b \<and> T_less_eq is_signed b mx}"
    by (rule Collect_cong)
      (rule ex_slot_iff [where P = "\<lambda>e. ((lhs e = val \<and> rhs e = _) \<or> (lhs e = _ \<and> rhs e = val))
        \<and> T_less_eq is_signed mn _ \<and> T_less_eq is_signed _ mx"])
  finally show ?thesis
    by auto
qed

lemma distinct_GetMatchingIntegerDictionaryEntries:
  "distinct (GetMatchingIntegerDictionaryEntries is_signed t val mn mx)"
  by (simp add: GetMatchingIntegerDictionaryEntries_def distinct_entries_loop)

lemma example_table_facts:
  "length (table example_table) = kTableSize TYPE(32)"
  "set (table example_table)
     = {\<lparr>lhs = 42, rhs = 99\<rparr>, \<lparr>lhs = 17, rhs = 42\<rparr>, \<lparr>lhs = 0, rhs = 0\<rparr>}"
  "table example_table ! 0 = \<lparr>lhs = 42, rhs = 99\<rparr>"
  by (simp_all add: example_table_def kTableSize_def sizeof_T_def)

text \<open>
  Claim C8. For every table (of \<open>kTableSize\<close> slots), value \<open>val\<close> and bounds \<open>min\<close>,
  \<open>max\<close>, \<^verbatim>\<open>GetMatchingIntegerDictionaryEntries(val, min, max)\<close> returns, without
  duplicates, exactly the values \<open>b\<close> with \<open>min \<le> b \<le> max\<close> such that some slot holds
  \<open>(val, b)\<close> or \<open>(b, val)\<close>; a table with the same slots in another order gives the same
  set. (\<open>min \<le> max\<close> is not needed.)
\<close>

theorem GetMatchingIntegerDictionaryEntries_set:
  fixes t t' :: "('a::len word) TableOfRecentCompares"
  assumes "length (table t) = kTableSize TYPE('a)"
  shows "set (GetMatchingIntegerDictionaryEntries is_signed t val mn mx) =
       {b. (\<exists>e \<in> set (table t). (lhs e = val \<and> rhs e = b) \<or> (lhs e = b \<and> rhs e = val))
           \<and> T_less_eq is_signed mn b \<and> T_less_eq is_signed b mx}
     \<and> distinct (GetMatchingIntegerDictionaryEntries is_signed t val mn mx)
     \<and> (mset (table t') = mset (table t) \<longrightarrow>
          set (GetMatchingIntegerDictionaryEntries is_signed t' val mn mx)
            = set (GetMatchingIntegerDictionaryEntries is_signed t val mn mx))"
proof (intro conjI impI)
  show "set (GetMatchingIntegerDictionaryEntries is_signed t val mn mx) =
       {b. (\<exists>e \<in> set (table t). (lhs e = val \<and> rhs e = b) \<or> (lhs e = b \<and> rhs e = val))
           \<and> T_less_eq is_signed mn b \<and> T_less_eq is_signed b mx}"
    using assms by (rule set_GetMatchingIntegerDictionaryEntries)
  show "distinct (GetMatchingIntegerDictionaryEntries is_signed t val mn mx)"
    by (rule distinct_GetMatchingIntegerDictionaryEntries)
  assume perm: "mset (table t') = mset (table t)"
  then have "length (table t') = length (table t)"
    by (rule mset_eq_length)
  with assms have len: "length (table t') = kTableSize TYPE('a)"
    by simp
  from perm have "set (table t') = set (table t)"
    by (rule mset_eq_setD)
  then show "set (GetMatchingIntegerDictionaryEntries is_signed t' val mn mx)
      = set (GetMatchingIntegerDictionaryEntries is_signed t val mn mx)"
    by (simp add: set_GetMatchingIntegerDictionaryEntries [OF len]
        set_GetMatchingIntegerDictionaryEntries [OF assms])
qed

theorem GetMatchingIntegerDictionaryEntries_set_witness:
  "length (table example_table) = kTableSize TYPE(32)
   \<and> set (GetMatchingIntegerDictionaryEntries False example_table 42 0 100) = {99, 17}
   \<and> set (GetMatchingIntegerDictionaryEntries False example_table 42 0 50) = {17}
   \<and> distinct (GetMatchingIntegerDictionaryEntries False example_table 42 0 100)"
proof -
  note t = GetMatchingIntegerDictionaryEntries_set [OF example_table_facts(1),
      where is_signed = False and val = 42 and mn = 0 and t' = example_table]
  have "set (GetMatchingIntegerDictionaryEntries False example_table 42 0 100) = {99, 17}"
    by (subst t [of 100, THEN conjunct1])
      (auto simp: example_table_facts(2) T_less_eq_def)
  moreover have "set (GetMatchingIntegerDictionaryEntries False example_table 42 0 50) = {17}"
    by (subst t [of 50, THEN conjunct1])
      (auto simp: example_table_facts(2) T_less_eq_def)
  ultimately show ?thesis
    using t [of 100] example_table_facts(1) by simp
qed

subsection \<open>A random side of a slot\<close>

lemma GetRandomSide_lhs:
  "GetRandomSide is_signed coin t idx mn mx =
     (if T_less_eq is_signed mn (lhs (table t ! idx)) \<and> T_less_eq is_signed (lhs (table t ! idx)) mx
      then Some (lhs (table t ! idx)) else None)"
  by (simp add: GetRandomSide_def Let_def)

text \<open>
  Claim C3 says that one outcome of the coin returns the slot's \<open>rhs\<close> when it lies in
  \<open>[min, max]\<close>. The source reads \<^verbatim>\<open>entry.lhs\<close> in both branches, so no outcome does: for
  the slot \<open>(42, 99)\<close> and the bounds \<open>[50, 100]\<close>, which contain the \<open>rhs\<close> 99, both
  outcomes return nothing, and for the bounds \<open>[0, 100]\<close> both return the \<open>lhs\<close> 42.
\<close>

theorem GetRandomSide_never_rhs:
  "rhs (table example_table ! 0) = 99
   \<and> T_less_eq False 50 (99 :: 32 word) \<and> T_less_eq False (99 :: 32 word) 100
   \<and> GetRandomSide False True example_table 0 50 100 = None
   \<and> GetRandomSide False False example_table 0 50 100 = None
   \<and> GetRandomSide False True example_table 0 0 100 = Some 42
   \<and> GetRandomSide False False example_table 0 0 100 = Some 42"
  by (simp add: GetRandomSide_lhs example_table_facts(3) T_less_eq_def)

end
